theory Spec2Isabelle
  imports Complex_Main "HOL-Library.AList" "HOL-Library.Multiset"
begin

section \<open>JavaScript values and plain objects\<close>

text \<open>
  The loader moves YAML front matter around as plain JavaScript objects
  (\<^verbatim>\<open>Record<string, unknown>\<close>). A value is one of the shapes the spec lists for
  metadata: undefined, null, boolean, number, string, date, array, nested map.

  \<^item> A \<^verbatim>\<open>Date\<close> is its time value in milliseconds (\<^verbatim>\<open>getTime()\<close>); the parser only keeps
    dates whose time value is a number, so there is no invalid date here.
  \<^item> A number is a rational: the finite values. \<^verbatim>\<open>NaN\<close> and the infinities are not
    represented.
  \<^item> A plain object is the list of its own properties in enumeration order. The names
    are pairwise different in every object the program builds; theorems that need it say
    \<open>distinct (map fst m)\<close>. Reading a name that is not there gives \<^verbatim>\<open>undefined\<close>,
    writing a name replaces the value in place or appends a new property
    (\<^const>\<open>AList.update\<close>). Objects are used as dictionaries, as their TypeScript types
    say: members inherited from \<^verbatim>\<open>Object.prototype\<close> are not part of the model, and neither
    is the rule that enumerates integer-like names first.
\<close>

datatype jsval =
    JUndefined
  | JNull
  | JBool bool
  | JNum rat
  | JStr string
  | JDate int
  | JArr "jsval list"
  | JObj "(string \<times> jsval) list"

type_synonym obj = "(string \<times> jsval) list"

definition obj_get :: "obj \<Rightarrow> string \<Rightarrow> jsval" where
  "obj_get m k = (case map_of m k of None \<Rightarrow> JUndefined | Some v \<Rightarrow> v)"

definition obj_set :: "string \<Rightarrow> jsval \<Rightarrow> obj \<Rightarrow> obj" where
  "obj_set k v m = AList.update k v m"

text \<open>JavaScript truthiness, as \<^verbatim>\<open>if (x)\<close> and \<^verbatim>\<open>x || y\<close> test it.\<close>

fun truthy :: "jsval \<Rightarrow> bool" where
  "truthy JUndefined = False"
| "truthy JNull = False"
| "truthy (JBool b) = b"
| "truthy (JNum n) = (n \<noteq> 0)"
| "truthy (JStr s) = (s \<noteq> [])"
| "truthy (JDate t) = True"
| "truthy (JArr xs) = True"
| "truthy (JObj m) = True"

section \<open>Errors\<close>

text \<open>
  \<^verbatim>\<open>FieldMappingConflictError(quartoField, mappedField, existingField, filePath)\<close> from
  \<^verbatim>\<open>utils/errors.ts\<close>, \<^verbatim>\<open>QmdParseError\<close> with the path of the file that could not be
  read or parsed; \<^verbatim>\<open>TypeError\<close> is what the runtime throws when a method is called on
  a value that does not have it.
\<close>

datatype error =
    FieldMappingConflictError string string string string
  | QmdParseError string
  | TypeError

section \<open>Strings and file names\<close>

text \<open>
  A JavaScript string is modelled as a list of 8-bit characters (the code points up to
  255); file names with characters beyond that range are not represented. The character
  classes are those of the regular expressions in \<^verbatim>\<open>generateSlug\<close>: \<^verbatim>\<open>\d\<close>, \<^verbatim>\<open>\w\<close>, \<^verbatim>\<open>\s\<close>.
\<close>

definition charCode :: "char \<Rightarrow> nat" where
  "charCode c = of_char c"

definition is_digit :: "char \<Rightarrow> bool" where
  "is_digit c = (48 \<le> charCode c \<and> charCode c \<le> 57)"

definition is_word :: "char \<Rightarrow> bool" where
  "is_word c =
     ((65 \<le> charCode c \<and> charCode c \<le> 90) \<or> (97 \<le> charCode c \<and> charCode c \<le> 122)
      \<or> is_digit c \<or> charCode c = 95)"

definition is_space :: "char \<Rightarrow> bool" where
  "is_space c = ((9 \<le> charCode c \<and> charCode c \<le> 13) \<or> charCode c = 32 \<or> charCode c = 160)"

definition is_hyphen :: "char \<Rightarrow> bool" where
  "is_hyphen c = (charCode c = 45)"

definition is_slash :: "char \<Rightarrow> bool" where
  "is_slash c = (charCode c = 47)"

text \<open>
  \<^verbatim>\<open>String.prototype.toLowerCase\<close> on this range: the ASCII capitals and the Latin-1
  capitals (192 to 222 without the multiplication sign 215) move up by 32.
\<close>

definition toLowerCase_char :: "char \<Rightarrow> char" where
  "toLowerCase_char c =
     (if (65 \<le> charCode c \<and> charCode c \<le> 90)
         \<or> (192 \<le> charCode c \<and> charCode c \<le> 222 \<and> charCode c \<noteq> 215)
      then char_of (charCode c + 32) else c)"

definition toLowerCase :: "string \<Rightarrow> string" where
  "toLowerCase s = map toLowerCase_char s"

definition startsWith :: "string \<Rightarrow> string \<Rightarrow> bool" where
  "startsWith s p = (take (length p) s = p)"

definition endsWith :: "string \<Rightarrow> string \<Rightarrow> bool" where
  "endsWith s e = (length e \<le> length s \<and> drop (length s - length e) s = e)"

text \<open>\<^verbatim>\<open>s.split(sep)\<close> for a one-character separator: always at least one piece.\<close>

fun js_split :: "char \<Rightarrow> string \<Rightarrow> string list" where
  "js_split sep [] = [[]]"
| "js_split sep (c # cs) =
     (if c = sep then [] # js_split sep cs
      else (case js_split sep cs of
              [] \<Rightarrow> [[c]]
            | w # ws \<Rightarrow> (c # w) # ws))"

text \<open>
  \<^verbatim>\<open>path.basename(path, suffix)\<close> of Node.js, POSIX flavour (the separator is \<^verbatim>\<open>/\<close>). It is
  library code, written here as Node implements it: the last segment, trailing slashes
  ignored; a suffix that the segment ends with is cut off unless it is the whole
  segment; a path equal to the suffix gives the empty string; and when the segment is a
  proper end of the suffix the trailing slashes stay.
\<close>

definition last_segment :: "string \<Rightarrow> string" where
  "last_segment path = rev (takeWhile (\<lambda>c. \<not> is_slash c) (dropWhile is_slash (rev path)))"

definition basename :: "string \<Rightarrow> string \<Rightarrow> string" where
  "basename path ext =
     (let seg = last_segment path in
      if ext \<noteq> [] \<and> length ext \<le> length path then
        if ext = path then []
        else if seg \<noteq> ext \<and> endsWith ext seg then seg @ takeWhile is_slash (rev path)
        else if seg \<noteq> ext \<and> endsWith seg ext then take (length seg - length ext) seg
        else seg
      else seg)"

text \<open>
  The other two functions of Node's \<^verbatim>\<open>path\<close> module that the normalizer calls are taken
  as given.
\<close>

record path_module =
  pm_dirname :: "string \<Rightarrow> string"
  pm_join :: "string \<Rightarrow> string \<Rightarrow> string"

section \<open>Field mapper (parsers/metadata-normalizer.ts)\<close>

type_synonym FieldMappings = "(string \<times> string) list"

text \<open>
  \<^verbatim>\<open>applyFieldMappings\<close>: the loop over \<^verbatim>\<open>Object.entries(metadata)\<close>, with \<^verbatim>\<open>result\<close> as
  accumulator. \<^verbatim>\<open>mappings[key]\<close> is \<^verbatim>\<open>undefined\<close> (so falsy) when the table has no
  entry, and the empty string is falsy too. The set \<^verbatim>\<open>appliedMappings\<close> is written and
  never read, so it is left out.
\<close>

fun applyFieldMappings_loop ::
  "obj \<Rightarrow> FieldMappings \<Rightarrow> string \<Rightarrow> obj \<Rightarrow> obj \<Rightarrow> error + obj" where
  "applyFieldMappings_loop metadata mappings filePath [] result = Inr result"
| "applyFieldMappings_loop metadata mappings filePath ((key, value) # rest) result =
     (case map_of mappings key of
        None \<Rightarrow>
          applyFieldMappings_loop metadata mappings filePath rest (obj_set key value result)
      | Some mappedKey \<Rightarrow>
          if mappedKey \<noteq> [] \<and> mappedKey \<noteq> key then
            if key \<noteq> mappedKey \<and> obj_get metadata mappedKey \<noteq> JUndefined
            then Inl (FieldMappingConflictError key mappedKey mappedKey filePath)
            else applyFieldMappings_loop metadata mappings filePath rest
                   (obj_set mappedKey value result)
          else
            applyFieldMappings_loop metadata mappings filePath rest (obj_set key value result))"

definition applyFieldMappings :: "obj \<Rightarrow> FieldMappings \<Rightarrow> string \<Rightarrow> error + obj" where
  "applyFieldMappings metadata mappings filePath =
     applyFieldMappings_loop metadata mappings filePath metadata []"

text \<open>\<^verbatim>\<open>DEFAULT_FIELD_MAPPINGS\<close> (types/loader-config.ts).\<close>

definition DEFAULT_FIELD_MAPPINGS :: FieldMappings where
  "DEFAULT_FIELD_MAPPINGS =
     [(''title'', ''title''),
      (''description'', ''description''),
      (''author'', ''author''),
      (''date'', ''pubDate''),
      (''date-modified'', ''updatedDate''),
      (''image'', ''heroImage''),
      (''categories'', ''categories''),
      (''tags'', ''tags''),
      (''draft'', ''draft'')]"

text \<open>
  Object spread \<^verbatim>\<open>{ ...a, ...b }\<close>: the properties of \<^verbatim>\<open>a\<close>, then every property of
  \<^verbatim>\<open>b\<close> written over them.
\<close>

definition spread2 :: "('k \<times> 'v) list \<Rightarrow> ('k \<times> 'v) list \<Rightarrow> ('k \<times> 'v) list" where
  "spread2 a b = fold (\<lambda>(k, v) r. AList.update k v r) b a"

definition mergeFieldMappings :: "FieldMappings option \<Rightarrow> FieldMappings" where
  "mergeFieldMappings custom =
     (case custom of
        None \<Rightarrow> DEFAULT_FIELD_MAPPINGS
      | Some c \<Rightarrow> spread2 DEFAULT_FIELD_MAPPINGS c)"

text \<open>
  \<^verbatim>\<open>inheritListingDefaults\<close>: a copy of the metadata, then every default whose name reads
  \<^verbatim>\<open>undefined\<close> in the copy is written into it.
\<close>

definition inheritListingDefaults :: "obj \<Rightarrow> obj \<Rightarrow> obj" where
  "inheritListingDefaults metadata defaults =
     fold (\<lambda>(key, value) result.
             if obj_get result key = JUndefined then obj_set key value result else result)
          defaults metadata"

section \<open>Slug derivation (parsers/metadata-normalizer.ts)\<close>

text \<open>
  The four \<^verbatim>\<open>replace\<close> calls of \<^verbatim>\<open>generateSlug\<close>, one function each:
  \<^verbatim>\<open>/^\d{4}-\d{2}-\d{2}-/\<close> (at most one match, at the start),
  \<^verbatim>\<open>/[^\w\s-]/g\<close>, \<^verbatim>\<open>/[\s_]+/g\<close> and \<^verbatim>\<open>/^-+|-+$/g\<close>.
\<close>

fun match_prefix :: "(char \<Rightarrow> bool) list \<Rightarrow> string \<Rightarrow> bool" where
  "match_prefix [] s = True"
| "match_prefix (p # ps) [] = False"
| "match_prefix (p # ps) (c # cs) = (p c \<and> match_prefix ps cs)"

definition date_prefix :: "(char \<Rightarrow> bool) list" where
  "date_prefix =
     [is_digit, is_digit, is_digit, is_digit, is_hyphen,
      is_digit, is_digit, is_hyphen,
      is_digit, is_digit, is_hyphen]"

definition has_date_prefix :: "string \<Rightarrow> bool" where
  "has_date_prefix s = match_prefix date_prefix s"

definition strip_date_prefix :: "string \<Rightarrow> string" where
  "strip_date_prefix s = (if has_date_prefix s then drop (length date_prefix) s else s)"

definition remove_special :: "string \<Rightarrow> string" where
  "remove_special s = filter (\<lambda>c. is_word c \<or> is_space c \<or> is_hyphen c) s"

text \<open>
  A maximal run of whitespace and underscores becomes one hyphen; the flag says whether
  the previous character was part of such a run.
\<close>

fun hyphenate_runs :: "bool \<Rightarrow> string \<Rightarrow> string" where
  "hyphenate_runs in_run [] = []"
| "hyphenate_runs in_run (c # cs) =
     (if is_space c \<or> charCode c = 95
      then (if in_run then hyphenate_runs True cs else CHR ''-'' # hyphenate_runs True cs)
      else c # hyphenate_runs False cs)"

definition trim_hyphens :: "string \<Rightarrow> string" where
  "trim_hyphens s = rev (dropWhile is_hyphen (rev (dropWhile is_hyphen s)))"

definition slug_of_filename :: "string \<Rightarrow> string" where
  "slug_of_filename filePath =
     trim_hyphens (hyphenate_runs False (remove_special (toLowerCase
       (strip_date_prefix (basename filePath ''.qmd'')))))"

text \<open>
  \<^verbatim>\<open>generateSlug(filePath, title, slugify)\<close>. The title is whatever the metadata holds
  under \<^verbatim>\<open>title\<close>; the caller's \<^verbatim>\<open>slugify\<close> is used when it is given and the title is
  truthy.
\<close>

definition generateSlug :: "string \<Rightarrow> jsval \<Rightarrow> (jsval \<Rightarrow> string) option \<Rightarrow> string" where
  "generateSlug filePath title slugify =
     (case slugify of
        Some f \<Rightarrow> if truthy title then f title else slug_of_filename filePath
      | None \<Rightarrow> slug_of_filename filePath)"

section \<open>Metadata normalizer (parsers/metadata-normalizer.ts)\<close>

record NormalizationOptions =
  basePath :: string
  outputDir :: string
  fieldMappings :: FieldMappings
  slugify :: "(jsval \<Rightarrow> string) option"
  imageResolver :: "(jsval \<Rightarrow> string \<Rightarrow> jsval) option"

record NormalizedEntry =
  entry_id :: string
  entry_slug :: string
  entry_data :: obj

text \<open>
  \<^verbatim>\<open>resolveImagePath\<close>. Without a resolver the code calls \<^verbatim>\<open>imagePath.startsWith\<close>, which
  only a string has: any other truthy value ends in a \<^verbatim>\<open>TypeError\<close>.
\<close>

definition resolveImagePath ::
  "path_module \<Rightarrow> jsval \<Rightarrow> string \<Rightarrow> NormalizationOptions \<Rightarrow> error + jsval" where
  "resolveImagePath pm imagePath qmdPath options =
     (if \<not> truthy imagePath then Inr JUndefined
      else case imageResolver options of
        Some resolver \<Rightarrow> Inr (resolver imagePath qmdPath)
      | None \<Rightarrow>
          (case imagePath of
             JStr p \<Rightarrow>
               if startsWith p ''http://'' \<or> startsWith p ''https://'' then Inr (JStr p)
               else if \<not> startsWith p ''/'' then Inr (JStr (pm_join pm (pm_dirname pm qmdPath) p))
               else Inr (JStr p)
           | _ \<Rightarrow> Inl TypeError))"

text \<open>
  \<^verbatim>\<open>normalizeMetadata\<close>, its five numbered steps in order. A thrown error leaves through
  \<open>Inl\<close>.
\<close>

definition normalizeMetadata ::
  "path_module \<Rightarrow> obj \<Rightarrow> string \<Rightarrow> NormalizationOptions \<Rightarrow> obj option
     \<Rightarrow> error + NormalizedEntry" where
  "normalizeMetadata pm raw filePath options listingDefaults =
     (let inherited = (case listingDefaults of
                         Some defaults \<Rightarrow> inheritListingDefaults raw defaults
                       | None \<Rightarrow> raw)
      in case applyFieldMappings inherited (fieldMappings options) filePath of
        Inl e \<Rightarrow> Inl e
      | Inr mapped \<Rightarrow>
          let imageFieldName =
                (case map_of (fieldMappings options) ''image'' of
                   Some n \<Rightarrow> if n \<noteq> [] then n else ''image''
                 | None \<Rightarrow> ''image'');
              resolved =
                (if truthy (obj_get mapped imageFieldName)
                 then (case resolveImagePath pm (obj_get mapped imageFieldName) filePath options of
                         Inl e \<Rightarrow> Inl e
                       | Inr p \<Rightarrow> Inr (obj_set imageFieldName p mapped))
                 else Inr mapped)
          in case resolved of
            Inl e \<Rightarrow> Inl e
          | Inr metadata \<Rightarrow>
              let ident = generateSlug filePath (obj_get metadata ''title'') (slugify options);
                  slug = ident
              in Inr \<lparr> entry_id = ident,
                       entry_slug = slug,
                       entry_data =
                         (if obj_get metadata ''draft'' = JUndefined
                          then obj_set ''draft'' (JBool False) metadata
                          else metadata) \<rparr>)"





section \<open>Listing sort (parsers/listing-config.ts)\<close>

text \<open>\<^verbatim>\<open>sort?: string | string[]\<close> of a listing.\<close>

datatype SortConfig = SortString string | SortList "string list"

text \<open>
  \<^verbatim>\<open>Array.prototype.sort(compare)\<close> is stable, and for a consistent comparator its result
  is the one stable ordering. It is modelled by a stable insertion sort: an element goes
  in front of the first later element that the comparator does not put before it.
\<close>

fun js_sort_insert :: "('a \<Rightarrow> 'a \<Rightarrow> rat) \<Rightarrow> 'a \<Rightarrow> 'a list \<Rightarrow> 'a list" where
  "js_sort_insert compare x [] = [x]"
| "js_sort_insert compare x (y # ys) =
     (if compare x y \<le> 0 then x # y # ys else y # js_sort_insert compare x ys)"

definition js_sort :: "('a \<Rightarrow> 'a \<Rightarrow> rat) \<Rightarrow> 'a list \<Rightarrow> 'a list" where
  "js_sort compare xs = foldr (js_sort_insert compare) xs []"

text \<open>
  \<^verbatim>\<open>const [field, direction] = sortField.split(" ")\<close> and
  \<^verbatim>\<open>direction?.toLowerCase() === "desc"\<close>.
\<close>

definition sort_field :: "string \<Rightarrow> string" where
  "sort_field sortField = (case js_split CHR '' '' sortField of [] \<Rightarrow> [] | field # _ \<Rightarrow> field)"

definition sort_desc :: "string \<Rightarrow> bool" where
  "sort_desc sortField =
     (case js_split CHR '' '' sortField of
        _ # direction # _ \<Rightarrow> toLowerCase direction = ''desc''
      | _ \<Rightarrow> False)"

text \<open>
  The block under \<^verbatim>\<open>// Compare values\<close>. \<^verbatim>\<open>localeCompare\<close> depends on the runtime's
  locale and is a parameter.
\<close>

fun compare_values :: "(string \<Rightarrow> string \<Rightarrow> int) \<Rightarrow> jsval \<Rightarrow> jsval \<Rightarrow> rat" where
  "compare_values localeCompare (JDate a) (JDate b) = of_int (a - b)"
| "compare_values localeCompare (JStr a) (JStr b) = of_int (localeCompare a b)"
| "compare_values localeCompare (JNum a) (JNum b) = a - b"
| "compare_values localeCompare a b = 0"

text \<open>
  The comparator passed to \<^verbatim>\<open>sort\<close>: the loop over the sort keys. The entries are of any
  record type \<^verbatim>\<open>T extends Record<string, unknown>\<close>; \<open>get\<close> reads a property of one.
\<close>

fun sort_comparator ::
  "(string \<Rightarrow> string \<Rightarrow> int) \<Rightarrow> ('a \<Rightarrow> string \<Rightarrow> jsval) \<Rightarrow> string list \<Rightarrow> 'a \<Rightarrow> 'a \<Rightarrow> rat" where
  "sort_comparator localeCompare get [] a b = 0"
| "sort_comparator localeCompare get (sortField # sorts) a b =
     (if get a (sort_field sortField) = JUndefined \<and> get b (sort_field sortField) = JUndefined
      then sort_comparator localeCompare get sorts a b
      else if get a (sort_field sortField) = JUndefined then 1
      else if get b (sort_field sortField) = JUndefined then - 1
      else if compare_values localeCompare
                (get a (sort_field sortField)) (get b (sort_field sortField)) \<noteq> 0
      then (if sort_desc sortField
            then - compare_values localeCompare
                     (get a (sort_field sortField)) (get b (sort_field sortField))
            else compare_values localeCompare
                   (get a (sort_field sortField)) (get b (sort_field sortField)))
      else sort_comparator localeCompare get sorts a b)"

text \<open>
  \<^verbatim>\<open>applySortConfiguration\<close>. A missing configuration and the empty string are falsy and
  give the entries back; an empty array of keys still sorts (every comparison is 0).
\<close>

definition applySortConfiguration ::
  "(string \<Rightarrow> string \<Rightarrow> int) \<Rightarrow> ('a \<Rightarrow> string \<Rightarrow> jsval) \<Rightarrow> 'a list \<Rightarrow> SortConfig option
     \<Rightarrow> 'a list" where
  "applySortConfiguration localeCompare get entries sortConfig =
     (case sortConfig of
        None \<Rightarrow> entries
      | Some (SortString s) \<Rightarrow>
          if s = [] then entries
          else js_sort (sort_comparator localeCompare get [s]) entries
      | Some (SortList sorts) \<Rightarrow> js_sort (sort_comparator localeCompare get sorts) entries)"

text \<open>
  What the sort step says in the words of the specification, for one date field in
  descending order: \<open>a\<close> may stand before \<open>b\<close> when \<open>b\<close> has no value, or both have a
  date and the date of \<open>a\<close> is not the earlier one.
\<close>

fun date_desc_before :: "jsval \<Rightarrow> jsval \<Rightarrow> bool" where
  "date_desc_before (JDate a) (JDate b) = (b \<le> a)"
| "date_desc_before a JUndefined = True"
| "date_desc_before a b = False"

definition date_or_missing :: "jsval \<Rightarrow> bool" where
  "date_or_missing v = (case v of JDate t \<Rightarrow> True | JUndefined \<Rightarrow> True | _ \<Rightarrow> False)"

text \<open>
  A listing of \<^verbatim>\<open>_quarto.yml\<close> (\<^verbatim>\<open>QuartoListing\<close>, types/quarto.ts): the properties
  that the sort step and the schema step read.
\<close>

record QuartoListing =
  listing_id :: string
  listing_sort :: "SortConfig option"
  field_required :: "string list option"

section \<open>Schema inference (schema/common-fields.ts, schema/generator.ts)\<close>

text \<open>
  The Zod (version 3) type descriptors the generator builds. \<open>ZOptional t\<close> is
  \<^verbatim>\<open>t.optional()\<close>, \<open>ZDefault t v\<close> is \<^verbatim>\<open>t.default(v)\<close>, \<open>ZRecord t\<close> is \<^verbatim>\<open>z.record(t)\<close>.
  \<open>ZOther name\<close> is any other Zod type that a caller puts into a custom field, an extension
  or an override, known by its type name only.
\<close>

datatype ztype =
    ZString
  | ZNumber
  | ZBoolean
  | ZDate
  | ZUnknown
  | ZNever
  | ZArray ztype
  | ZRecord ztype
  | ZUnion "ztype list"
  | ZOptional ztype
  | ZDefault ztype jsval
  | ZOther string

text \<open>\<^verbatim>\<open>_def.typeName\<close> of a descriptor.\<close>

fun typeName :: "ztype \<Rightarrow> string" where
  "typeName ZString = ''ZodString''"
| "typeName ZNumber = ''ZodNumber''"
| "typeName ZBoolean = ''ZodBoolean''"
| "typeName ZDate = ''ZodDate''"
| "typeName ZUnknown = ''ZodUnknown''"
| "typeName ZNever = ''ZodNever''"
| "typeName (ZArray t) = ''ZodArray''"
| "typeName (ZRecord t) = ''ZodRecord''"
| "typeName (ZUnion ts) = ''ZodUnion''"
| "typeName (ZOptional t) = ''ZodOptional''"
| "typeName (ZDefault t v) = ''ZodDefault''"
| "typeName (ZOther name) = name"

text \<open>
  A \<^verbatim>\<open>z.object(shape)\<close>: the shape, the policy for unknown keys and the catch-all type
  (Zod's defaults are \<^verbatim>\<open>strip\<close> and \<^verbatim>\<open>never\<close>).
\<close>

datatype UnknownKeysParam = passthrough | strict | strip

record ZodObject =
  shape :: "(string \<times> ztype) list"
  unknownKeys :: UnknownKeysParam
  catchall :: ztype

definition z_object :: "(string \<times> ztype) list \<Rightarrow> ZodObject" where
  "z_object schemaFields = \<lparr> shape = schemaFields, unknownKeys = strip, catchall = ZNever \<rparr>"

text \<open>\<^verbatim>\<open>commonFields\<close> and \<^verbatim>\<open>getFieldSchema\<close> (schema/common-fields.ts).\<close>

definition commonFields :: "(string \<times> ztype) list" where
  "commonFields =
     [(''title'', ZString),
      (''description'', ZOptional ZString),
      (''author'', ZOptional (ZUnion [ZString, ZArray ZString])),
      (''pubDate'', ZDate),
      (''updatedDate'', ZOptional ZDate),
      (''heroImage'', ZOptional ZString),
      (''categories'', ZOptional (ZArray ZString)),
      (''tags'', ZOptional (ZArray ZString)),
      (''draft'', ZDefault ZBoolean (JBool False))]"

definition getFieldSchema :: "string \<Rightarrow> ztype option" where
  "getFieldSchema fieldName = map_of commonFields fieldName"

text \<open>\<^verbatim>\<open>inferTypeFromValue\<close> and \<^verbatim>\<open>inferFieldType\<close> (schema/generator.ts).\<close>

fun inferTypeFromValue :: "jsval \<Rightarrow> ztype" where
  "inferTypeFromValue JNull = ZUnknown"
| "inferTypeFromValue JUndefined = ZUnknown"
| "inferTypeFromValue (JDate t) = ZDate"
| "inferTypeFromValue (JStr s) = ZString"
| "inferTypeFromValue (JNum n) = ZNumber"
| "inferTypeFromValue (JBool b) = ZBoolean"
| "inferTypeFromValue (JArr []) = ZArray ZUnknown"
| "inferTypeFromValue (JArr (v # vs)) = ZArray (inferTypeFromValue v)"
| "inferTypeFromValue (JObj m) = ZRecord ZUnknown"

definition inferFieldType :: "string \<Rightarrow> jsval list \<Rightarrow> ztype" where
  "inferFieldType fieldName values =
     (case getFieldSchema fieldName of
        Some commonSchema \<Rightarrow> commonSchema
      | None \<Rightarrow>
          (case filter (\<lambda>v. v \<noteq> JUndefined) values of
             [] \<Rightarrow> ZOptional ZUnknown
           | first # others \<Rightarrow>
               let definedValues = first # others;
                   baseType = inferTypeFromValue first;
                   allSameType =
                     list_all (\<lambda>v. typeName (inferTypeFromValue v) = typeName baseType)
                       definedValues
               in if \<not> allSameType then ZOptional ZUnknown
                  else if length definedValues < length values then ZOptional baseType
                  else baseType))"

record SchemaOptions =
  strictMode :: "bool option"
  requiredFields :: "string list option"
  customFields :: "(string \<times> ztype) list option"

text \<open>
  \<^verbatim>\<open>generateSchema\<close>. The names are collected in a \<^verbatim>\<open>Set\<close>, which keeps the order of first
  insertion. The branch for required fields assigns a field to itself and so changes
  nothing; it is kept as the source has it.
\<close>

definition allFieldNames :: "obj list \<Rightarrow> string list" where
  "allFieldNames documents =
     fold (\<lambda>doc names. fold (\<lambda>key ns. if key \<in> set ns then ns else ns @ [key]) (map fst doc) names)
       documents []"

definition fieldSchemaFor :: "obj list \<Rightarrow> SchemaOptions \<Rightarrow> string \<Rightarrow> ztype" where
  "fieldSchemaFor documents options fieldName =
     (let values = map (\<lambda>doc. obj_get doc fieldName) documents;
          chosen =
            (case customFields options of
               None \<Rightarrow> inferFieldType fieldName values
             | Some custom \<Rightarrow>
                 (case map_of custom fieldName of
                    Some t \<Rightarrow> t
                  | None \<Rightarrow> inferFieldType fieldName values))
      in (case requiredFields options of
            None \<Rightarrow> chosen
          | Some required \<Rightarrow> if fieldName \<in> set required then chosen else chosen))"

definition generateSchema :: "obj list \<Rightarrow> QuartoListing \<Rightarrow> SchemaOptions \<Rightarrow> ZodObject" where
  "generateSchema documents listing options =
     (let inferred =
            fold (\<lambda>fieldName schemaFields.
                    AList.update fieldName (fieldSchemaFor documents options fieldName) schemaFields)
              (allFieldNames documents) [];
          withTitle =
            (if map_of inferred ''title'' = None
             then AList.update ''title'' ZString inferred else inferred);
          withDate =
            (if map_of withTitle ''pubDate'' = None \<and> map_of withTitle ''date'' = None
             then AList.update ''pubDate'' ZDate withTitle else withTitle)
      in z_object withDate)"

text \<open>
  \<^verbatim>\<open>applySchemaConfig\<close>. \<^verbatim>\<open>merge\<close> is Zod's, a parameter here: it returns the merged object
  or throws an error with a message. The result is the schema and the warnings handed to
  the logger, when there is one.
\<close>

record SchemaConfig =
  schema_extend :: "ZodObject option"
  schema_override :: "ZodObject option"

definition applySchemaConfig ::
  "(ZodObject \<Rightarrow> ZodObject \<Rightarrow> string + ZodObject) \<Rightarrow> ZodObject \<Rightarrow> SchemaConfig option \<Rightarrow> bool
     \<Rightarrow> ZodObject \<times> string list" where
  "applySchemaConfig merge baseSchema config logger =
     (case config of
        None \<Rightarrow> (baseSchema, [])
      | Some c \<Rightarrow>
          (case schema_override c of
             Some replacement \<Rightarrow> (replacement, [])
           | None \<Rightarrow>
               (case schema_extend c of
                  Some extension \<Rightarrow>
                    (case merge baseSchema extension of
                       Inr merged \<Rightarrow> (merged, [])
                     | Inl message \<Rightarrow>
                         (baseSchema,
                          if logger
                          then [''Schema merge conflict: '' @ message @ ''. Using base schema.'']
                          else []))
                | None \<Rightarrow> (baseSchema, []))))"

text \<open>
  \<^verbatim>\<open>ZodObject.merge\<close> as Zod documents it: the shape of the first object with every field
  of the second written over it; the policy for unknown keys and the catch-all are those
  of the second. It does not throw on two Zod objects.
\<close>

definition zod_merge :: "ZodObject \<Rightarrow> ZodObject \<Rightarrow> string + ZodObject" where
  "zod_merge a b =
     Inr \<lparr> shape = spread2 (shape a) (shape b),
           unknownKeys = unknownKeys b,
           catchall = catchall b \<rparr>"

text \<open>\<^verbatim>\<open>createListingSchema\<close>.\<close>

definition createListingSchema ::
  "(ZodObject \<Rightarrow> ZodObject \<Rightarrow> string + ZodObject) \<Rightarrow> QuartoListing \<Rightarrow> obj list
     \<Rightarrow> SchemaConfig option \<Rightarrow> bool \<Rightarrow> ZodObject \<times> string list" where
  "createListingSchema merge listing documents userConfig logger =
     applySchemaConfig merge
       (generateSchema documents listing
          \<lparr> strictMode = None,
            requiredFields = Some (case field_required listing of None \<Rightarrow> [] | Some r \<Rightarrow> r),
            customFields = None \<rparr>)
       userConfig logger"



section \<open>Parse cache (utils/cache.ts)\<close>

text \<open>
  \<^verbatim>\<open>fs.stat\<close> is the file system at the moment of the call: a function from paths to the
  modification time and size of the file, \<open>None\<close> where \<^verbatim>\<open>stat\<close> throws. The JavaScript
  \<^verbatim>\<open>Map\<close> keeps insertion order: \<^verbatim>\<open>set\<close> replaces in place or appends
  (\<^const>\<open>AList.update\<close>), \<^verbatim>\<open>delete\<close> removes (\<^const>\<open>AList.delete\<close>), and
  \<^verbatim>\<open>keys().next().value\<close> is the first key. The capacity is a natural number.
\<close>

record Stats =
  mtimeMs :: rat
  stat_size :: nat

record 'a CacheEntry =
  ce_data :: 'a
  ce_mtime :: rat
  ce_size :: nat

record 'a FileCache =
  cache :: "(string \<times> 'a CacheEntry) list"
  maxSize :: nat

definition new_FileCache :: "nat \<Rightarrow> 'a FileCache" where
  "new_FileCache n = \<lparr> cache = [], maxSize = n \<rparr>"

text \<open>\<^verbatim>\<open>get(path)\<close>: the cached data or \<^verbatim>\<open>undefined\<close> (\<open>None\<close>), and the cache afterwards.\<close>

definition FileCache_get ::
  "(string \<Rightarrow> Stats option) \<Rightarrow> string \<Rightarrow> 'a FileCache \<Rightarrow> 'a option \<times> 'a FileCache" where
  "FileCache_get stat path c =
     (case map_of (cache c) path of
        None \<Rightarrow> (None, c)
      | Some entry \<Rightarrow>
          (case stat path of
             Some stats \<Rightarrow>
               if mtimeMs stats = ce_mtime entry \<and> stat_size stats = ce_size entry
               then (Some (ce_data entry),
                     c\<lparr> cache := AList.update path entry (AList.delete path (cache c)) \<rparr>)
               else (None, c\<lparr> cache := AList.delete path (cache c) \<rparr>)
           | None \<Rightarrow> (None, c\<lparr> cache := AList.delete path (cache c) \<rparr>)))"

text \<open>
  \<^verbatim>\<open>set(path, data)\<close>. The oldest key is evicted only \<^verbatim>\<open>if (firstKey)\<close>: when there is
  one and it is not the empty string.
\<close>

definition FileCache_set ::
  "(string \<Rightarrow> Stats option) \<Rightarrow> string \<Rightarrow> 'a \<Rightarrow> 'a FileCache \<Rightarrow> 'a FileCache" where
  "FileCache_set stat path d c =
     (case stat path of
        None \<Rightarrow> c
      | Some stats \<Rightarrow>
          let kept =
                (if maxSize c \<le> length (cache c)
                 then (case cache c of
                         [] \<Rightarrow> []
                       | (firstKey, oldest) # others \<Rightarrow>
                           if firstKey \<noteq> [] then AList.delete firstKey (cache c) else cache c)
                 else cache c)
          in c\<lparr> cache :=
                 AList.update path
                   \<lparr> ce_data = d, ce_mtime = mtimeMs stats, ce_size = stat_size stats \<rparr> kept \<rparr>)"

definition FileCache_invalidate :: "string \<Rightarrow> 'a FileCache \<Rightarrow> 'a FileCache" where
  "FileCache_invalidate path c = c\<lparr> cache := AList.delete path (cache c) \<rparr>"

definition FileCache_clear :: "'a FileCache \<Rightarrow> 'a FileCache" where
  "FileCache_clear c = c\<lparr> cache := [] \<rparr>"

definition FileCache_size :: "'a FileCache \<Rightarrow> nat" where
  "FileCache_size c = length (cache c)"

text \<open>
  A sequence of operations on one cache; each \<^verbatim>\<open>get\<close> and \<^verbatim>\<open>set\<close> comes with the file
  system it finds. The empty path names no file: \<^verbatim>\<open>stat("")\<close> throws.
\<close>

datatype 'a cache_op =
    OpGet "string \<Rightarrow> Stats option" string
  | OpSet "string \<Rightarrow> Stats option" string 'a
  | OpInvalidate string
  | OpClear

fun apply_op :: "'a cache_op \<Rightarrow> 'a FileCache \<Rightarrow> 'a FileCache" where
  "apply_op (OpGet stat path) c = snd (FileCache_get stat path c)"
| "apply_op (OpSet stat path d) c = FileCache_set stat path d c"
| "apply_op (OpInvalidate path) c = FileCache_invalidate path c"
| "apply_op OpClear c = FileCache_clear c"

definition run_ops :: "'a cache_op list \<Rightarrow> 'a FileCache \<Rightarrow> 'a FileCache" where
  "run_ops ops c = fold apply_op ops c"

fun op_on_real_files :: "'a cache_op \<Rightarrow> bool" where
  "op_on_real_files (OpGet stat path) = (stat [] = None)"
| "op_on_real_files (OpSet stat path d) = (stat [] = None)"
| "op_on_real_files (OpInvalidate path) = True"
| "op_on_real_files OpClear = True"

text \<open>
  The invariant of a cache with capacity at least one: no more entries than the capacity,
  and the empty string is not a key.
\<close>

definition cache_inv :: "'a FileCache \<Rightarrow> bool" where
  "cache_inv c = (length (cache c) \<le> maxSize c \<and> [] \<notin> fst ` set (cache c))"

text \<open>A file system with three files, for the examples.\<close>

definition three_files :: "string \<Rightarrow> Stats option" where
  "three_files p =
     (if p = ''a.qmd'' \<or> p = ''b.qmd'' \<or> p = ''c.qmd''
      then Some \<lparr> mtimeMs = 5, stat_size = 10 \<rparr> else None)"

section \<open>Pipeline orchestrator (loader.ts)\<close>

text \<open>
  The part of \<^verbatim>\<open>QuartoLoaderConfig\<close> that steps 6 to 11 read. The hooks are pure
  functions of the entry's data; a hook that throws ends the load in either mode and is
  not modelled.
\<close>

record QuartoLoaderConfig =
  cfg_quartoRoot :: string
  cfg_outputPath :: string
  cfg_fieldMappings :: "FieldMappings option"
  cfg_filter :: "(obj \<Rightarrow> bool) option"
  cfg_transform :: "(obj \<Rightarrow> obj) option"
  cfg_imageResolver :: "(jsval \<Rightarrow> string \<Rightarrow> jsval) option"
  cfg_cache :: "bool option"
  cfg_parallel :: "bool option"

definition cacheEnabled :: "QuartoLoaderConfig \<Rightarrow> bool" where
  "cacheEnabled config = (case cfg_cache config of None \<Rightarrow> True | Some b \<Rightarrow> b)"

definition parallelEnabled :: "QuartoLoaderConfig \<Rightarrow> bool" where
  "parallelEnabled config = (case cfg_parallel config of None \<Rightarrow> True | Some b \<Rightarrow> b)"

text \<open>\<^verbatim>\<open>xs.map(f)\<close> for an \<open>f\<close> that may throw: the first throw ends the map.\<close>

fun map_throwing :: "('a \<Rightarrow> 'e + 'b) \<Rightarrow> 'a list \<Rightarrow> 'e + 'b list" where
  "map_throwing f [] = Inr []"
| "map_throwing f (x # xs) =
     (case f x of
        Inl e \<Rightarrow> Inl e
      | Inr y \<Rightarrow> (case map_throwing f xs of Inl e \<Rightarrow> Inl e | Inr ys \<Rightarrow> Inr (y # ys)))"

text \<open>Step 7: every parsed file is normalized, with the options the loader builds.\<close>

definition normalizeEntries ::
  "path_module \<Rightarrow> QuartoLoaderConfig \<Rightarrow> obj \<Rightarrow> (string \<times> obj) list \<Rightarrow> error + NormalizedEntry list" where
  "normalizeEntries pm config defaults parsedFiles =
     map_throwing
       (\<lambda>(filePath, metadata).
          normalizeMetadata pm metadata filePath
            \<lparr> basePath = cfg_quartoRoot config,
              outputDir = cfg_outputPath config,
              fieldMappings = mergeFieldMappings (cfg_fieldMappings config),
              slugify = None,
              imageResolver = cfg_imageResolver config \<rparr>
            (Some defaults))
       parsedFiles"

text \<open>
  Step 8, both branches. With pure hooks \<^verbatim>\<open>Promise.all(xs.map(async ...))\<close> is the list of
  the results in the order of \<open>xs\<close>; the sequential branch is the \<^verbatim>\<open>for\<close> loop with
  \<^verbatim>\<open>kept.push\<close>.
\<close>

definition filter_parallel :: "(obj \<Rightarrow> bool) \<Rightarrow> NormalizedEntry list \<Rightarrow> NormalizedEntry list" where
  "filter_parallel hook entries =
     map fst (filter snd (map (\<lambda>entry. (entry, hook (entry_data entry))) entries))"

definition filter_sequential :: "(obj \<Rightarrow> bool) \<Rightarrow> NormalizedEntry list \<Rightarrow> NormalizedEntry list" where
  "filter_sequential hook entries =
     fold (\<lambda>entry kept. if hook (entry_data entry) then kept @ [entry] else kept) entries []"

definition filterEntries :: "QuartoLoaderConfig \<Rightarrow> NormalizedEntry list \<Rightarrow> NormalizedEntry list" where
  "filterEntries config normalizedEntries =
     (case cfg_filter config of
        None \<Rightarrow> normalizedEntries
      | Some hook \<Rightarrow>
          if parallelEnabled config then filter_parallel hook normalizedEntries
          else filter_sequential hook normalizedEntries)"

text \<open>Step 9, both branches: \<^verbatim>\<open>{ ...entry, data: transform(entry.data) }\<close>.\<close>

definition transform_parallel :: "(obj \<Rightarrow> obj) \<Rightarrow> NormalizedEntry list \<Rightarrow> NormalizedEntry list" where
  "transform_parallel hook entries =
     map (\<lambda>entry. entry\<lparr> entry_data := hook (entry_data entry) \<rparr>) entries"

definition transform_sequential :: "(obj \<Rightarrow> obj) \<Rightarrow> NormalizedEntry list \<Rightarrow> NormalizedEntry list" where
  "transform_sequential hook entries =
     fold (\<lambda>entry transformed. transformed @ [entry\<lparr> entry_data := hook (entry_data entry) \<rparr>])
       entries []"

definition transformEntries :: "QuartoLoaderConfig \<Rightarrow> NormalizedEntry list \<Rightarrow> NormalizedEntry list" where
  "transformEntries config filteredEntries =
     (case cfg_transform config of
        None \<Rightarrow> filteredEntries
      | Some hook \<Rightarrow>
          if parallelEnabled config then transform_parallel hook filteredEntries
          else transform_sequential hook filteredEntries)"

text \<open>
  Step 10. \<^verbatim>\<open>applySortConfiguration(transformedEntries, listing.sort)\<close> is handed the
  entries themselves, objects with the three properties \<^verbatim>\<open>id\<close>, \<^verbatim>\<open>slug\<close> and \<^verbatim>\<open>data\<close>;
  the comparator reads \<^verbatim>\<open>a[field]\<close> on those.
\<close>

definition entry_object :: "NormalizedEntry \<Rightarrow> obj" where
  "entry_object entry =
     [(''id'', JStr (entry_id entry)),
      (''slug'', JStr (entry_slug entry)),
      (''data'', JObj (entry_data entry))]"

definition sortEntries ::
  "(string \<Rightarrow> string \<Rightarrow> int) \<Rightarrow> QuartoListing \<Rightarrow> NormalizedEntry list \<Rightarrow> NormalizedEntry list" where
  "sortEntries localeCompare listing transformedEntries =
     applySortConfiguration localeCompare (\<lambda>entry. obj_get (entry_object entry))
       transformedEntries (listing_sort listing)"

text \<open>Steps 7 to 10 of \<^verbatim>\<open>load\<close> for one listing, from the parsed files on.\<close>

definition sortedEntriesOf ::
  "path_module \<Rightarrow> (string \<Rightarrow> string \<Rightarrow> int) \<Rightarrow> QuartoLoaderConfig \<Rightarrow> QuartoListing \<Rightarrow> obj
     \<Rightarrow> (string \<times> obj) list \<Rightarrow> error + NormalizedEntry list" where
  "sortedEntriesOf pm localeCompare config listing defaults parsedFiles =
     (case normalizeEntries pm config defaults parsedFiles of
        Inl e \<Rightarrow> Inl e
      | Inr normalizedEntries \<Rightarrow>
          Inr (sortEntries localeCompare listing
                 (transformEntries config (filterEntries config normalizedEntries))))"

text \<open>
  The sort scenario of the specification: three parsed files, dated 2025-01-01,
  2025-03-01 (midnight UTC, in milliseconds) and undated, in file-resolution order; and
  a loader configuration with every option left at its default.
\<close>

definition three_parsed :: "(string \<times> obj) list" where
  "three_parsed =
     [(''/site/posts/a.qmd'', [(''title'', JStr ''A''), (''date'', JDate 1735689600000)]),
      (''/site/posts/b.qmd'', [(''title'', JStr ''B''), (''date'', JDate 1740787200000)]),
      (''/site/posts/c.qmd'', [(''title'', JStr ''C'')])]"

definition default_config :: QuartoLoaderConfig where
  "default_config =
     \<lparr> cfg_quartoRoot = ''/site'', cfg_outputPath = ''/site/_site'',
       cfg_fieldMappings = None, cfg_filter = None, cfg_transform = None,
       cfg_imageResolver = None, cfg_cache = None, cfg_parallel = None \<rparr>"

definition posts_by_date_desc :: QuartoListing where
  "posts_by_date_desc =
     \<lparr> listing_id = ''posts'', listing_sort = Some (SortString ''date desc''),
       field_required = None \<rparr>"

text \<open>
  Step 6, \<^verbatim>\<open>parseFile\<close>. \<open>parse\<close> stands for \<^verbatim>\<open>parseQmdFile\<close> followed by
  \<^verbatim>\<open>extractMetadata\<close>: the metadata of the file at a path, \<open>None\<close> where
  \<^verbatim>\<open>QmdParseError\<close> is thrown. This is \<^verbatim>\<open>parseFile\<close> run without interruption, as the
  sequential mode runs it.
\<close>

definition parseFile ::
  "bool \<Rightarrow> (string \<Rightarrow> Stats option) \<Rightarrow> (string \<Rightarrow> obj option) \<Rightarrow> string \<Rightarrow> obj FileCache
     \<Rightarrow> (error + string \<times> obj) \<times> obj FileCache" where
  "parseFile enabled stat parse filePath qmdCache =
     (let (cached, afterGet) =
            (if enabled then FileCache_get stat filePath qmdCache else (None, qmdCache))
      in case cached of
           Some metadata \<Rightarrow> (Inr (filePath, metadata), afterGet)
         | None \<Rightarrow>
             (case parse filePath of
                None \<Rightarrow> (Inl (QmdParseError filePath), afterGet)
              | Some metadata \<Rightarrow>
                  (Inr (filePath, metadata),
                   if enabled then FileCache_set stat filePath metadata afterGet
                   else afterGet)))"

text \<open>
  Step 6 in sequential mode: the \<^verbatim>\<open>reduce\<close> over the files. Each \<^verbatim>\<open>parseFile\<close> runs to its end
  before the next one starts, and the first rejection ends the chain.
\<close>

fun parseFiles_sequential ::
  "bool \<Rightarrow> (string \<Rightarrow> Stats option) \<Rightarrow> (string \<Rightarrow> obj option) \<Rightarrow> string list \<Rightarrow> obj FileCache
     \<Rightarrow> (error + (string \<times> obj) list) \<times> obj FileCache" where
  "parseFiles_sequential enabled stat parse [] qmdCache = (Inr [], qmdCache)"
| "parseFiles_sequential enabled stat parse (file # files) qmdCache =
     (case parseFile enabled stat parse file qmdCache of
        (Inl e, afterFile) \<Rightarrow> (Inl e, afterFile)
      | (Inr parsed, afterFile) \<Rightarrow>
          (case parseFiles_sequential enabled stat parse files afterFile of
             (Inl e, afterAll) \<Rightarrow> (Inl e, afterAll)
           | (Inr results, afterAll) \<Rightarrow> (Inr (parsed # results), afterAll)))"

text \<open>
  Step 6 in concurrent mode: \<^verbatim>\<open>Promise.all(resolved.files.map(parseFile))\<close>. The \<^verbatim>\<open>map\<close>
  starts every \<^verbatim>\<open>parseFile\<close> in file order, and each runs until it first waits for the
  file system; from then on a call runs in pieces, one piece whenever the \<^verbatim>\<open>stat\<close> or
  \<^verbatim>\<open>readFile\<close> it waits for completes, and the pieces of different calls follow each other
  in any order. A piece runs without interruption. The places where a call can wait:

  \<^item> in \<^verbatim>\<open>FileCache.get\<close>, at \<^verbatim>\<open>await stat(path)\<close>, holding the entry that
    \<^verbatim>\<open>this.cache.get(path)\<close> returned when the call started;
  \<^item> in \<^verbatim>\<open>parseQmdFile\<close>, at \<^verbatim>\<open>await readFile(path)\<close>;
  \<^item> in \<^verbatim>\<open>FileCache.set\<close>, at \<^verbatim>\<open>await stat(path)\<close>, holding the metadata just parsed.

  The file system does not change during a load: \<open>stat\<close> and \<open>parse\<close> are the same
  functions for every piece.
\<close>

datatype parse_task =
    AwaitGetStat string "obj CacheEntry"
  | AwaitRead string
  | AwaitSetStat string obj
  | Resolved string obj
  | Rejected error

text \<open>The part of \<^verbatim>\<open>parseFile\<close> that runs inside the \<^verbatim>\<open>map\<close>; it reads the cache only.\<close>

definition start_task :: "bool \<Rightarrow> obj FileCache \<Rightarrow> string \<Rightarrow> parse_task" where
  "start_task enabled qmdCache filePath =
     (if enabled
      then (case map_of (cache qmdCache) filePath of
              Some entry \<Rightarrow> AwaitGetStat filePath entry
            | None \<Rightarrow> AwaitRead filePath)
      else AwaitRead filePath)"

text \<open>One piece of a call: from the place where it waits to the next one, or to its end.\<close>

fun resume_task ::
  "bool \<Rightarrow> (string \<Rightarrow> Stats option) \<Rightarrow> (string \<Rightarrow> obj option) \<Rightarrow> parse_task \<Rightarrow> obj FileCache
     \<Rightarrow> parse_task \<times> obj FileCache" where
  "resume_task enabled stat parse (AwaitGetStat path entry) c =
     (case stat path of
        Some stats \<Rightarrow>
          if mtimeMs stats = ce_mtime entry \<and> stat_size stats = ce_size entry
          then (Resolved path (ce_data entry),
                c\<lparr> cache := AList.update path entry (AList.delete path (cache c)) \<rparr>)
          else (AwaitRead path, c\<lparr> cache := AList.delete path (cache c) \<rparr>)
      | None \<Rightarrow> (AwaitRead path, c\<lparr> cache := AList.delete path (cache c) \<rparr>))"
| "resume_task enabled stat parse (AwaitRead path) c =
     (case parse path of
        None \<Rightarrow> (Rejected (QmdParseError path), c)
      | Some metadata \<Rightarrow>
          if enabled then (AwaitSetStat path metadata, c) else (Resolved path metadata, c))"
| "resume_task enabled stat parse (AwaitSetStat path metadata) c =
     (Resolved path metadata, FileCache_set stat path metadata c)"
| "resume_task enabled stat parse (Resolved path metadata) c = (Resolved path metadata, c)"
| "resume_task enabled stat parse (Rejected e) c = (Rejected e, c)"

fun settled :: "parse_task \<Rightarrow> bool" where
  "settled (Resolved path metadata) = True"
| "settled (Rejected e) = True"
| "settled t = False"

text \<open>A step of the whole: some call that still waits runs its next piece.\<close>

inductive concurrent_step ::
  "bool \<Rightarrow> (string \<Rightarrow> Stats option) \<Rightarrow> (string \<Rightarrow> obj option)
     \<Rightarrow> parse_task list \<times> obj FileCache \<Rightarrow> parse_task list \<times> obj FileCache \<Rightarrow> bool"
  for enabled stat parse where
  resume:
    "i < length tasks \<Longrightarrow> \<not> settled (tasks ! i) \<Longrightarrow>
     resume_task enabled stat parse (tasks ! i) c = (t', c') \<Longrightarrow>
     concurrent_step enabled stat parse (tasks, c) (tasks[i := t'], c')"

text \<open>
  \<^verbatim>\<open>Promise.all\<close>: the results in the order of the calls when every call has resolved;
  a rejected call rejects the whole, and the load ends without a result set (\<open>None\<close>).
\<close>

fun promise_all :: "parse_task list \<Rightarrow> (string \<times> obj) list option" where
  "promise_all [] = Some []"
| "promise_all (Resolved path metadata # tasks) =
     (case promise_all tasks of None \<Rightarrow> None | Some results \<Rightarrow> Some ((path, metadata) # results))"
| "promise_all (t # tasks) = None"

text \<open>
  Steps 7 to 9 after either mode of step 6, and the two modes of the stages together.
  The result is the list of entries after the transform stage, \<open>None\<close> when the load has
  ended in an error before. In concurrent mode it is the result of any run of the calls
  in which every call has settled.
\<close>

definition entriesAfterTransform ::
  "path_module \<Rightarrow> QuartoLoaderConfig \<Rightarrow> obj \<Rightarrow> (string \<times> obj) list \<Rightarrow> NormalizedEntry list option" where
  "entriesAfterTransform pm config defaults parsedFiles =
     (case normalizeEntries pm config defaults parsedFiles of
        Inl e \<Rightarrow> None
      | Inr normalizedEntries \<Rightarrow>
          Some (transformEntries config (filterEntries config normalizedEntries)))"

inductive transformedEntries ::
  "path_module \<Rightarrow> QuartoLoaderConfig \<Rightarrow> obj \<Rightarrow> (string \<Rightarrow> Stats option) \<Rightarrow> (string \<Rightarrow> obj option)
     \<Rightarrow> string list \<Rightarrow> obj FileCache \<Rightarrow> NormalizedEntry list option \<Rightarrow> bool"
  for pm config defaults stat parse files qmdCache where
  sequential:
    "\<not> parallelEnabled config \<Longrightarrow>
     fst (parseFiles_sequential (cacheEnabled config) stat parse files qmdCache) = parsed \<Longrightarrow>
     transformedEntries pm config defaults stat parse files qmdCache
       (case parsed of
          Inl e \<Rightarrow> None
        | Inr parsedFiles \<Rightarrow> entriesAfterTransform pm config defaults parsedFiles)"
| concurrent:
    "parallelEnabled config \<Longrightarrow>
     (concurrent_step (cacheEnabled config) stat parse)\<^sup>*\<^sup>*
        (map (start_task (cacheEnabled config) qmdCache) files, qmdCache) (tasks, afterAll) \<Longrightarrow>
     list_all settled tasks \<Longrightarrow>
     transformedEntries pm config defaults stat parse files qmdCache
       (case promise_all tasks of
          None \<Rightarrow> None
        | Some parsedFiles \<Rightarrow> entriesAfterTransform pm config defaults parsedFiles)"

text \<open>
  The cache agrees with the files: an entry whose modification time and size are those
  of the file now holds the metadata that parsing the file now gives.
\<close>

definition cache_coherent ::
  "(string \<Rightarrow> Stats option) \<Rightarrow> (string \<Rightarrow> obj option) \<Rightarrow> obj FileCache \<Rightarrow> bool" where
  "cache_coherent stat parse c =
     (\<forall>path entry stats.
        map_of (cache c) path = Some entry \<and> stat path = Some stats
          \<and> mtimeMs stats = ce_mtime entry \<and> stat_size stats = ce_size entry
        \<longrightarrow> parse path = Some (ce_data entry))"

text \<open>What a call of \<^verbatim>\<open>parseFile\<close> will settle to, read off the place where it waits.\<close>

definition parse_outcome :: "(string \<Rightarrow> obj option) \<Rightarrow> string \<Rightarrow> error + string \<times> obj" where
  "parse_outcome parse path =
     (case parse path of
        None \<Rightarrow> Inl (QmdParseError path)
      | Some metadata \<Rightarrow> Inr (path, metadata))"

fun task_outcome ::
  "(string \<Rightarrow> Stats option) \<Rightarrow> (string \<Rightarrow> obj option) \<Rightarrow> parse_task \<Rightarrow> error + string \<times> obj" where
  "task_outcome stat parse (AwaitGetStat path entry) =
     (case stat path of
        Some stats \<Rightarrow>
          if mtimeMs stats = ce_mtime entry \<and> stat_size stats = ce_size entry
          then Inr (path, ce_data entry) else parse_outcome parse path
      | None \<Rightarrow> parse_outcome parse path)"
| "task_outcome stat parse (AwaitRead path) = parse_outcome parse path"
| "task_outcome stat parse (AwaitSetStat path metadata) = Inr (path, metadata)"
| "task_outcome stat parse (Resolved path metadata) = Inr (path, metadata)"
| "task_outcome stat parse (Rejected e) = Inl e"

fun steps_left :: "parse_task \<Rightarrow> nat" where
  "steps_left (AwaitGetStat path entry) = 3"
| "steps_left (AwaitRead path) = 2"
| "steps_left (AwaitSetStat path metadata) = 1"
| "steps_left t = 0"

text \<open>
  The results of a list of settled calls: all of them in order, or nothing when one has
  failed.
\<close>

fun collect :: "('e + 'a) list \<Rightarrow> 'a list option" where
  "collect [] = Some []"
| "collect (Inr x # rest) = (case collect rest of None \<Rightarrow> None | Some xs \<Rightarrow> Some (x # xs))"
| "collect (Inl e # rest) = None"

text \<open>
  A load with a stale entry in a full cache. The loader's cache holds 500 entries. The
  oldest is for \<^verbatim>\<open>old.qmd\<close>, stored when its title was \<^verbatim>\<open>Before\<close>; the file has since
  been rewritten with the title \<^verbatim>\<open>After\<close>, with its modification time and size as they
  were. The other 499 entries are for files of another listing. The listing now loaded
  resolves to a file not seen before, \<^verbatim>\<open>new.qmd\<close>, and \<^verbatim>\<open>old.qmd\<close>.
\<close>

definition old_path :: string where
  "old_path = ''/site/posts/old.qmd''"

definition new_path :: string where
  "new_path = ''/site/posts/new.qmd''"

definition site_stat :: "string \<Rightarrow> Stats option" where
  "site_stat p =
     (if p = old_path \<or> p = new_path
      then Some \<lparr> mtimeMs = 1735689600000, stat_size = 120 \<rparr> else None)"

definition site_parse :: "string \<Rightarrow> obj option" where
  "site_parse p =
     (if p = old_path then Some [(''title'', JStr ''After'')]
      else if p = new_path then Some [(''title'', JStr ''New'')]
      else None)"

definition archive_entries :: "(string \<times> obj CacheEntry) list" where
  "archive_entries =
     map (\<lambda>n. (''/site/archive/'' @ replicate (Suc n) CHR ''x'',
               \<lparr> ce_data = [(''title'', JStr ''Archived'')], ce_mtime = 0, ce_size = 0 \<rparr>))
       [0..<499]"

definition full_cache :: "obj FileCache" where
  "full_cache =
     \<lparr> cache =
         (old_path,
          \<lparr> ce_data = [(''title'', JStr ''Before'')], ce_mtime = 1735689600000,
            ce_size = 120 \<rparr>) # archive_entries,
       maxSize = 500 \<rparr>"

text \<open>
  A configuration with both hooks: the filter drops the entry titled \<^verbatim>\<open>New\<close>, the
  transform adds a field to the data of every entry that is left.
\<close>

definition hooks_config :: QuartoLoaderConfig where
  "hooks_config =
     default_config
       \<lparr> cfg_filter := Some (\<lambda>entryData. obj_get entryData ''title'' \<noteq> JStr ''New''),
         cfg_transform := Some (\<lambda>entryData. obj_set ''reviewed'' (JBool True) entryData) \<rparr>"

section \<open>Properties of the field mapper\<close>












section \<open>Properties of the slug derivation\<close>


lemma charCode_less: "charCode c < 256"
  by (simp add: charCode_def)


















section \<open>Properties of the metadata normalizer\<close>

text \<open>
  C10. Whenever normalization produces an entry, for every raw metadata map, file path,
  options and listing defaults, the entry's slug equals its id.
\<close>

theorem normalizeMetadata_slug_eq_id:
  "normalizeMetadata pm raw filePath options listingDefaults = Inr entry \<Longrightarrow>
   entry_slug entry = entry_id entry"
  by (auto simp: normalizeMetadata_def Let_def split: sum.splits if_splits)

theorem normalizeMetadata_slug_eq_id_witness:
  "normalizeMetadata \<lparr> pm_dirname = (\<lambda>p. p), pm_join = (\<lambda>a b. a @ b) \<rparr>
     [(''title'', JStr ''Test''), (''date'', JDate 1763942400000)]
     ''/path/to/2025-11-24-my-post.qmd''
     \<lparr> basePath = ''/path'', outputDir = ''/path/_site'',
        fieldMappings = DEFAULT_FIELD_MAPPINGS, slugify = None, imageResolver = None \<rparr>
     None
   = Inr \<lparr> entry_id = ''my-post'', entry_slug = ''my-post'',
           entry_data = [(''title'', JStr ''Test''), (''pubDate'', JDate 1763942400000),
                         (''draft'', JBool False)] \<rparr>
   \<and> entry_slug \<lparr> entry_id = ''my-post'', entry_slug = ''my-post'',
           entry_data = [(''title'', JStr ''Test''), (''pubDate'', JDate 1763942400000),
                         (''draft'', JBool False)] \<rparr> = ''my-post''"
proof -
  have r: "normalizeMetadata \<lparr> pm_dirname = (\<lambda>p. p), pm_join = (\<lambda>a b. a @ b) \<rparr>
     [(''title'', JStr ''Test''), (''date'', JDate 1763942400000)]
     ''/path/to/2025-11-24-my-post.qmd''
     \<lparr> basePath = ''/path'', outputDir = ''/path/_site'',
        fieldMappings = DEFAULT_FIELD_MAPPINGS, slugify = None, imageResolver = None \<rparr>
     None
   = Inr \<lparr> entry_id = ''my-post'', entry_slug = ''my-post'',
           entry_data = [(''title'', JStr ''Test''), (''pubDate'', JDate 1763942400000),
                         (''draft'', JBool False)] \<rparr>"
    by code_simp
  from normalizeMetadata_slug_eq_id[OF r] r show ?thesis by simp
qed

section \<open>Properties of the listing sort\<close>

lemma js_sort_insert_head:
  "(\<And>b. compare a b \<le> 0) \<Longrightarrow> js_sort_insert compare a xs = a # xs"
  by (cases xs) auto

lemma js_sort_all_equal:
  "(\<And>a b. compare a b \<le> 0) \<Longrightarrow> js_sort compare xs = xs"
  unfolding js_sort_def
  by (induction xs) (simp_all add: js_sort_insert_head)

lemma mset_js_sort_insert: "mset (js_sort_insert compare x xs) = add_mset x (mset xs)"
  by (induction xs) auto

lemma mset_js_sort: "mset (js_sort compare xs) = mset xs"
  unfolding js_sort_def by (induction xs) (auto simp: mset_js_sort_insert)

lemma set_js_sort_insert: "set (js_sort_insert compare x xs) = insert x (set xs)"
  by (induction xs) auto

lemma set_js_sort: "set (js_sort compare xs) = set xs"
  by (metis mset_js_sort set_mset_mset)

text \<open>
  Where the comparator is the sign of a total preorder on the elements at hand, the
  result is ordered by it.
\<close>

lemma sorted_wrt_js_sort_insert:
  assumes total: "\<And>a b. ok a \<Longrightarrow> ok b \<Longrightarrow> before a b \<or> before b a"
    and trans: "\<And>a b c. ok a \<Longrightarrow> ok b \<Longrightarrow> ok c \<Longrightarrow> before a b \<Longrightarrow> before b c \<Longrightarrow> before a c"
    and cmp: "\<And>a b. ok a \<Longrightarrow> ok b \<Longrightarrow> (compare a b \<le> 0) = before a b"
    and oks: "ok x" "\<forall>y \<in> set xs. ok y"
    and sorted: "sorted_wrt before xs"
  shows "sorted_wrt before (js_sort_insert compare x xs)"
  using sorted oks(2)
proof (induction xs)
  case Nil
  then show ?case by simp
next
  case (Cons y ys)
  have oky: "ok y" using Cons.prems by simp
  show ?case
  proof (cases "compare x y \<le> 0")
    case True
    then have xy: "before x y" using cmp oks(1) oky by simp
    have "before x z" if "z \<in> set ys" for z
    proof -
      have "before y z" using Cons.prems that by simp
      moreover have "ok z" using Cons.prems that by simp
      ultimately show ?thesis using trans[OF oks(1) oky _ xy] by blast
    qed
    with True xy Cons.prems show ?thesis by simp
  next
    case False
    then have "before y x" using total[OF oks(1) oky] cmp[OF oks(1) oky] by blast
    with False Cons show ?thesis by (auto simp: set_js_sort_insert)
  qed
qed

lemma sorted_wrt_js_sort:
  assumes total: "\<And>a b. ok a \<Longrightarrow> ok b \<Longrightarrow> before a b \<or> before b a"
    and trans: "\<And>a b c. ok a \<Longrightarrow> ok b \<Longrightarrow> ok c \<Longrightarrow> before a b \<Longrightarrow> before b c \<Longrightarrow> before a c"
    and cmp: "\<And>a b. ok a \<Longrightarrow> ok b \<Longrightarrow> (compare a b \<le> 0) = before a b"
    and oks: "\<forall>y \<in> set xs. ok y"
  shows "sorted_wrt before (js_sort compare xs)"
  using oks
proof (induction xs)
  case Nil
  then show ?case by (simp add: js_sort_def)
next
  case (Cons x xs)
  have step: "js_sort compare (x # xs) = js_sort_insert compare x (js_sort compare xs)"
    by (simp add: js_sort_def)
  have "sorted_wrt before (js_sort compare xs)" using Cons by simp
  moreover have "\<forall>y \<in> set (js_sort compare xs). ok y" using Cons.prems by (simp add: set_js_sort)
  moreover have "ok x" using Cons.prems by simp
  ultimately show ?case
    unfolding step by (intro sorted_wrt_js_sort_insert[OF total trans cmp]) auto
qed

lemma date_desc_comparator:
  assumes "date_or_missing (get a ''date'')" and "date_or_missing (get b ''date'')"
  shows "(sort_comparator lc get [''date desc''] a b \<le> 0)
         = date_desc_before (get a ''date'') (get b ''date'')"
proof -
  have f: "sort_field ''date desc'' = ''date''" by (simp add: sort_field_def)
  have d: "sort_desc ''date desc''" by code_simp
  show ?thesis
    using assms
    by (cases "get a ''date''"; cases "get b ''date''")
       (auto simp: f d date_or_missing_def)
qed

lemma date_desc_before_total:
  "date_or_missing u \<Longrightarrow> date_or_missing v \<Longrightarrow> date_desc_before u v \<or> date_desc_before v u"
  by (cases u; cases v) (auto simp: date_or_missing_def)

lemma date_desc_before_trans:
  "date_or_missing u \<Longrightarrow> date_or_missing v \<Longrightarrow> date_or_missing w \<Longrightarrow>
   date_desc_before u v \<Longrightarrow> date_desc_before v w \<Longrightarrow> date_desc_before u w"
  by (cases u; cases v; cases w) (auto simp: date_or_missing_def)

text \<open>
  The sort function on its own does what the specification says of \<^verbatim>\<open>"date desc"\<close>: for
  every list of records whose \<^verbatim>\<open>date\<close> is a date or missing, the result is a
  rearrangement of the list in which no record stands before one that has to come first
  (later dates first, records without a date last).
\<close>

lemma applySortConfiguration_date_desc:
  assumes "\<forall>e \<in> set entries. date_or_missing (get e ''date'')"
  shows "mset (applySortConfiguration lc get entries (Some (SortString ''date desc'')))
           = mset entries
       \<and> sorted_wrt (\<lambda>a b. date_desc_before (get a ''date'') (get b ''date''))
           (applySortConfiguration lc get entries (Some (SortString ''date desc'')))"
proof -
  let ?ok = "\<lambda>e. date_or_missing (get e ''date'')"
  let ?before = "\<lambda>a b. date_desc_before (get a ''date'') (get b ''date'')"
  have "sorted_wrt ?before (js_sort (sort_comparator lc get [''date desc'']) entries)"
  proof (rule sorted_wrt_js_sort[where ok = ?ok])
    show "?before a b \<or> ?before b a" if "?ok a" "?ok b" for a b
      using that by (rule date_desc_before_total)
    show "?before a c" if "?ok a" "?ok b" "?ok c" "?before a b" "?before b c" for a b c
      using that by (rule date_desc_before_trans)
    show "(sort_comparator lc get [''date desc''] a b \<le> 0) = ?before a b"
      if "?ok a" "?ok b" for a b
      using that by (rule date_desc_comparator)
    show "\<forall>y \<in> set entries. ?ok y" using assms .
  qed
  then show ?thesis
    by (simp add: applySortConfiguration_def mset_js_sort)
qed

text \<open>
  Called on the three data maps of the scenario, the sort function gives the order of
  the specification: 2025-03-01, 2025-01-01, undated.
\<close>

lemma applySortConfiguration_scenario_on_data:
  "applySortConfiguration lc obj_get (map snd three_parsed) (Some (SortString ''date desc''))
   = [[(''title'', JStr ''B''), (''date'', JDate 1740787200000)],
      [(''title'', JStr ''A''), (''date'', JDate 1735689600000)],
      [(''title'', JStr ''C'')]]"
proof -
  have f: "sort_field ''date desc'' = ''date''" by (simp add: sort_field_def)
  have d: "sort_desc ''date desc''" by code_simp
  show ?thesis
    by (simp add: applySortConfiguration_def js_sort_def three_parsed_def f d obj_get_def)
qed

text \<open>
  In the loader the comparator reads the sort field on the entry object. A field other
  than \<^verbatim>\<open>id\<close> and \<^verbatim>\<open>slug\<close> is undefined there, or is \<^verbatim>\<open>data\<close> and holds an object on
  both sides: the comparison is 0 for every pair and the sort step returns the entries in
  the order they came in.
\<close>

lemma entry_comparator_zero:
  assumes "\<forall>s \<in> set sorts. sort_field s \<noteq> ''id'' \<and> sort_field s \<noteq> ''slug''"
  shows "sort_comparator lc (\<lambda>entry. obj_get (entry_object entry)) sorts a b = 0"
  using assms
  by (induction sorts) (auto simp: entry_object_def obj_get_def)

lemma sortEntries_unchanged:
  assumes "case listing_sort listing of
             None \<Rightarrow> True
           | Some (SortString s) \<Rightarrow> sort_field s \<noteq> ''id'' \<and> sort_field s \<noteq> ''slug''
           | Some (SortList sorts) \<Rightarrow>
               (\<forall>s \<in> set sorts. sort_field s \<noteq> ''id'' \<and> sort_field s \<noteq> ''slug'')"
  shows "sortEntries lc listing entries = entries"
proof (cases "listing_sort listing")
  case None
  then show ?thesis by (simp add: sortEntries_def applySortConfiguration_def)
next
  case (Some sc)
  show ?thesis
  proof (cases sc)
    case (SortString s)
    with Some assms
    have "sort_comparator lc (\<lambda>entry. obj_get (entry_object entry)) [s] a b \<le> 0" for a b
      using entry_comparator_zero[of "[s]" lc a b] by simp
    then have "js_sort (sort_comparator lc (\<lambda>entry. obj_get (entry_object entry)) [s]) entries
               = entries"
      by (rule js_sort_all_equal)
    with Some SortString show ?thesis by (simp add: sortEntries_def applySortConfiguration_def)
  next
    case (SortList sorts)
    with Some assms
    have "sort_comparator lc (\<lambda>entry. obj_get (entry_object entry)) sorts a b \<le> 0" for a b
      using entry_comparator_zero[of sorts lc a b] by simp
    then have "js_sort (sort_comparator lc (\<lambda>entry. obj_get (entry_object entry)) sorts) entries
               = entries"
      by (rule js_sort_all_equal)
    with Some SortList show ?thesis by (simp add: sortEntries_def applySortConfiguration_def)
  qed
qed

text \<open>
  C1, the code at the scenario of the claim. The loader, with its default configuration
  and the listing sorted by \<^verbatim>\<open>"date desc"\<close>, turns the three parsed files (2025-01-01,
  2025-03-01, undated, in this order) into three entries in the same order, a, b, c:
  the order the claim gives is b, a, c.
\<close>

theorem sortedEntriesOf_scenario_keeps_input_order:
  "\<forall>pm lc. sortedEntriesOf pm lc default_config posts_by_date_desc [] three_parsed =
     Inr [\<lparr> entry_id = ''a'', entry_slug = ''a'',
             entry_data = [(''title'', JStr ''A''), (''pubDate'', JDate 1735689600000),
                           (''draft'', JBool False)] \<rparr>,
          \<lparr> entry_id = ''b'', entry_slug = ''b'',
             entry_data = [(''title'', JStr ''B''), (''pubDate'', JDate 1740787200000),
                           (''draft'', JBool False)] \<rparr>,
          \<lparr> entry_id = ''c'', entry_slug = ''c'',
             entry_data = [(''title'', JStr ''C''), (''draft'', JBool False)] \<rparr>]"
proof (intro allI)
  fix pm :: path_module and lc :: "string \<Rightarrow> string \<Rightarrow> int"
  have n: "normalizeEntries pm default_config [] three_parsed =
     Inr [\<lparr> entry_id = ''a'', entry_slug = ''a'',
             entry_data = [(''title'', JStr ''A''), (''pubDate'', JDate 1735689600000),
                           (''draft'', JBool False)] \<rparr>,
          \<lparr> entry_id = ''b'', entry_slug = ''b'',
             entry_data = [(''title'', JStr ''B''), (''pubDate'', JDate 1740787200000),
                           (''draft'', JBool False)] \<rparr>,
          \<lparr> entry_id = ''c'', entry_slug = ''c'',
             entry_data = [(''title'', JStr ''C''), (''draft'', JBool False)] \<rparr>]"
    by code_simp
  have f: "filterEntries default_config es = es" for es
    by (simp add: filterEntries_def default_config_def)
  have t: "transformEntries default_config es = es" for es
    by (simp add: transformEntries_def default_config_def)
  have "sort_field ''date desc'' = ''date''" by (simp add: sort_field_def)
  then have s: "sortEntries lc posts_by_date_desc es = es" for es
    by (intro sortEntries_unchanged) (simp add: posts_by_date_desc_def)
  show "sortedEntriesOf pm lc default_config posts_by_date_desc [] three_parsed =
     Inr [\<lparr> entry_id = ''a'', entry_slug = ''a'',
             entry_data = [(''title'', JStr ''A''), (''pubDate'', JDate 1735689600000),
                           (''draft'', JBool False)] \<rparr>,
          \<lparr> entry_id = ''b'', entry_slug = ''b'',
             entry_data = [(''title'', JStr ''B''), (''pubDate'', JDate 1740787200000),
                           (''draft'', JBool False)] \<rparr>,
          \<lparr> entry_id = ''c'', entry_slug = ''c'',
             entry_data = [(''title'', JStr ''C''), (''draft'', JBool False)] \<rparr>]"
    unfolding sortedEntriesOf_def n by (simp add: f t s)
qed

section \<open>Properties of schema inference\<close>













section \<open>Properties of the schema configuration\<close>

lemma map_of_fold_update_pairs:
  "distinct (map fst b) \<Longrightarrow>
   map_of (fold (\<lambda>(k, v) r. AList.update k v r) b a) x
     = (case map_of b x of None \<Rightarrow> map_of a x | Some t \<Rightarrow> Some t)"
proof (induction b arbitrary: a)
  case Nil
  then show ?case by simp
next
  case (Cons e b)
  obtain k v where e: "e = (k, v)" by (cases e)
  from Cons.prems e have fresh: "map_of b k = None" and dist: "distinct (map fst b)"
    by (auto simp: map_of_eq_None_iff)
  show ?case
    using Cons.IH[OF dist, of "AList.update k v a"] fresh
    by (auto simp: e update_conv' split: option.splits)
qed

lemma map_of_spread2:
  "distinct (map fst b) \<Longrightarrow> map_of (spread2 a b) = map_of a ++ map_of b"
  by (auto simp: spread2_def map_of_fold_update_pairs fun_eq_iff map_add_def)

text \<open>
  C9. For every inferred schema and caller-supplied schema configuration: an override
  replaces the inferred schema wholesale; without an override an extension is merged in,
  and Zod's merge gives every field of the extension precedence over the inferred field
  of the same name; and if the merge throws, a warning goes to the logger and the
  inferred schema is returned as it was.
\<close>

theorem applySchemaConfig_override_extend_fallback:
  "(schema_override config = Some replacement \<longrightarrow>
      applySchemaConfig merge baseSchema (Some config) logger = (replacement, []))
   \<and> (schema_override config = None \<and> schema_extend config = Some extension \<longrightarrow>
        (case merge baseSchema extension of
           Inr merged \<Rightarrow> applySchemaConfig merge baseSchema (Some config) logger = (merged, [])
         | Inl message \<Rightarrow>
             applySchemaConfig merge baseSchema (Some config) logger =
               (baseSchema,
                if logger then [''Schema merge conflict: '' @ message @ ''. Using base schema.'']
                else [])))
   \<and> (schema_override config = None \<and> schema_extend config = Some extension
        \<and> distinct (map fst (shape extension)) \<longrightarrow>
        (\<exists>merged. applySchemaConfig zod_merge baseSchema (Some config) logger = (merged, [])
           \<and> map_of (shape merged) = map_of (shape baseSchema) ++ map_of (shape extension)))"
  by (auto simp: applySchemaConfig_def zod_merge_def map_of_spread2 split: sum.splits)

theorem applySchemaConfig_override_extend_fallback_witness:
  "applySchemaConfig (\<lambda>a b. Inl ''bad shape'')
       (z_object [(''title'', ZString), (''pubDate'', ZDate)])
       (Some \<lparr> schema_extend = Some (z_object [(''title'', ZOptional ZString)]),
               schema_override = None \<rparr>) True
     = (z_object [(''title'', ZString), (''pubDate'', ZDate)],
        [''Schema merge conflict: bad shape. Using base schema.''])
   \<and> applySchemaConfig zod_merge
       (z_object [(''title'', ZString), (''pubDate'', ZDate)])
       (Some \<lparr> schema_extend = Some (z_object [(''title'', ZOptional ZString)]),
               schema_override = None \<rparr>) True
     = (z_object [(''title'', ZOptional ZString), (''pubDate'', ZDate)], [])
   \<and> applySchemaConfig zod_merge
       (z_object [(''title'', ZString), (''pubDate'', ZDate)])
       (Some \<lparr> schema_extend = Some (z_object [(''title'', ZOptional ZString)]),
               schema_override = Some (z_object [(''name'', ZString)]) \<rparr>) True
     = (z_object [(''name'', ZString)], [])"
proof -
  have m: "zod_merge (z_object [(''title'', ZString), (''pubDate'', ZDate)])
             (z_object [(''title'', ZOptional ZString)])
           = Inr (z_object [(''title'', ZOptional ZString), (''pubDate'', ZDate)])"
    by (simp add: zod_merge_def z_object_def spread2_def)
  from applySchemaConfig_override_extend_fallback
         [of "\<lparr> schema_extend = Some (z_object [(''title'', ZOptional ZString)]),
                 schema_override = None \<rparr>"
             "z_object []" "\<lambda>a b. Inl ''bad shape''"
             "z_object [(''title'', ZString), (''pubDate'', ZDate)]" True
             "z_object [(''title'', ZOptional ZString)]"]
       applySchemaConfig_override_extend_fallback
         [of "\<lparr> schema_extend = Some (z_object [(''title'', ZOptional ZString)]),
                 schema_override = None \<rparr>"
             "z_object []" zod_merge
             "z_object [(''title'', ZString), (''pubDate'', ZDate)]" True
             "z_object [(''title'', ZOptional ZString)]"]
       applySchemaConfig_override_extend_fallback
         [of "\<lparr> schema_extend = Some (z_object [(''title'', ZOptional ZString)]),
                 schema_override = Some (z_object [(''name'', ZString)]) \<rparr>"
             "z_object [(''name'', ZString)]" zod_merge
             "z_object [(''title'', ZString), (''pubDate'', ZDate)]" True
             "z_object [(''title'', ZOptional ZString)]"]
  show ?thesis
    by (simp add: m)
qed

section \<open>Properties of the parse cache\<close>

lemma map_of_delete_same: "map_of (AList.delete k m) k = None"
  by (simp add: delete_conv')

lemma cache_after_set:
  "stat path = Some stats \<Longrightarrow>
   map_of (cache (FileCache_set stat path d c)) path
     = Some \<lparr> ce_data = d, ce_mtime = mtimeMs stats, ce_size = stat_size stats \<rparr>"
  by (simp add: FileCache_set_def Let_def update_conv')

text \<open>
  C5. For every file path and parsed data, where the file can be stat'd when it is
  stored: after \<^verbatim>\<open>set(path, data)\<close>, a \<^verbatim>\<open>get(path)\<close> under the same modification time and
  size returns the data; a \<^verbatim>\<open>get(path)\<close> after the modification time or the size has
  changed returns a miss and leaves the cache without an entry for the path.
\<close>

theorem FileCache_set_then_get:
  assumes "stat path = Some stats"
  shows "fst (FileCache_get stat path (FileCache_set stat path d c)) = Some d
       \<and> (stat' path = Some stats'
            \<and> (mtimeMs stats' \<noteq> mtimeMs stats \<or> stat_size stats' \<noteq> stat_size stats)
          \<longrightarrow> fst (FileCache_get stat' path (FileCache_set stat path d c)) = None
              \<and> map_of (cache (snd (FileCache_get stat' path (FileCache_set stat path d c)))) path
                  = None)"
  using cache_after_set[of stat path stats d c] assms
  by (auto simp: FileCache_get_def map_of_delete_same)

theorem FileCache_set_then_get_witness:
  "FileCache_get (\<lambda>p. Some \<lparr> mtimeMs = 5, stat_size = 10 \<rparr>) ''a.qmd''
     (FileCache_set (\<lambda>p. Some \<lparr> mtimeMs = 5, stat_size = 10 \<rparr>) ''a.qmd''
        [(''title'', JStr ''A'')] (new_FileCache 500))
   = (Some [(''title'', JStr ''A'')],
      \<lparr> cache = [(''a.qmd'', \<lparr> ce_data = [(''title'', JStr ''A'')], ce_mtime = 5, ce_size = 10 \<rparr>)],
        maxSize = 500 \<rparr>)
   \<and> FileCache_get (\<lambda>p. Some \<lparr> mtimeMs = 6, stat_size = 10 \<rparr>) ''a.qmd''
     (FileCache_set (\<lambda>p. Some \<lparr> mtimeMs = 5, stat_size = 10 \<rparr>) ''a.qmd''
        [(''title'', JStr ''A'')] (new_FileCache 500))
   = (None, \<lparr> cache = [], maxSize = 500 \<rparr>)"
  using FileCache_set_then_get
    [of "\<lambda>p. Some \<lparr> mtimeMs = 5, stat_size = 10 \<rparr>" "''a.qmd''"
        "\<lparr> mtimeMs = 5, stat_size = 10 \<rparr>" "[(''title'', JStr ''A'')]" "new_FileCache 500"
        "\<lambda>p. Some \<lparr> mtimeMs = 6, stat_size = 10 \<rparr>" "\<lparr> mtimeMs = 6, stat_size = 10 \<rparr>"]
  by (simp add: FileCache_get_def FileCache_set_def new_FileCache_def)

lemma length_delete_less:
  "k \<in> fst ` set m \<Longrightarrow> length (AList.delete k m) < length m"
proof (induction m)
  case Nil
  then show ?case by simp
next
  case (Cons e m)
  show ?case
  proof (cases "fst e = k")
    case True
    then show ?thesis
      using length_delete_le[of k m] by (cases e) (simp add: less_Suc_eq_le)
  next
    case False
    with Cons.prems have "k \<in> fst ` set m" by auto
    with Cons.IH False show ?thesis by (cases e) simp
  qed
qed

lemma length_update_le: "length (AList.update k v m) \<le> Suc (length m)"
  by (induction m) auto

lemma keys_update: "fst ` set (AList.update k v m) = insert k (fst ` set m)"
  by (simp add: dom_update)

lemma keys_delete: "fst ` set (AList.delete k m) \<subseteq> fst ` set m"
  by (rule dom_delete_subset)

lemma cache_inv_get:
  assumes "cache_inv c"
  shows "cache_inv (snd (FileCache_get stat path c)) \<and> maxSize (snd (FileCache_get stat path c)) = maxSize c"
proof (cases "map_of (cache c) path")
  case None
  with assms show ?thesis by (simp add: FileCache_get_def)
next
  case (Some entry)
  then have key: "path \<in> fst ` set (cache c)"
    by (metis domI dom_map_of_conv_image_fst)
  have d1: "length (AList.delete path (cache c)) \<le> maxSize c"
    using assms length_delete_le[of path "cache c"] by (simp add: cache_inv_def)
  have d2: "[] \<notin> fst ` set (AList.delete path (cache c))"
    using assms keys_delete[of path "cache c"] by (auto simp: cache_inv_def)
  have "length (AList.update path entry (AList.delete path (cache c))) \<le> length (cache c)"
    using length_delete_less[OF key] length_update_le[of path entry "AList.delete path (cache c)"]
    by linarith
  then have u1: "length (AList.update path entry (AList.delete path (cache c))) \<le> maxSize c"
    using assms by (simp add: cache_inv_def)
  have "path \<noteq> []" using key assms unfolding cache_inv_def by blast
  then have u2: "[] \<notin> fst ` set (AList.update path entry (AList.delete path (cache c)))"
    using d2 by (simp add: keys_update)
  show ?thesis
    using Some d1 d2 u1 u2
    by (auto simp: FileCache_get_def cache_inv_def split: option.splits)
qed

lemma cache_inv_set:
  assumes "cache_inv c" and "1 \<le> maxSize c" and "stat [] = None"
  shows "cache_inv (FileCache_set stat path d c) \<and> maxSize (FileCache_set stat path d c) = maxSize c"
proof (cases "stat path")
  case None
  with assms show ?thesis by (simp add: FileCache_set_def)
next
  case (Some stats)
  with assms(3) have pne: "path \<noteq> []" by auto
  let ?e = "\<lparr> ce_data = d, ce_mtime = mtimeMs stats, ce_size = stat_size stats \<rparr>"
  show ?thesis
  proof (cases "maxSize c \<le> length (cache c)")
    case False
    then have "length (AList.update path ?e (cache c)) \<le> maxSize c"
      using length_update_le[of path ?e "cache c"] by linarith
    moreover have "[] \<notin> fst ` set (AList.update path ?e (cache c))"
      using assms(1) pne by (simp add: keys_update cache_inv_def)
    ultimately show ?thesis
      using Some False by (simp add: FileCache_set_def cache_inv_def)
  next
    case True
    with assms(2) obtain firstKey oldest others where m: "cache c = (firstKey, oldest) # others"
      by (cases "cache c") auto
    with assms(1) have fne: "firstKey \<noteq> []" by (auto simp: cache_inv_def)
    have "firstKey \<in> fst ` set (cache c)" using m by simp
    from length_delete_less[OF this]
    have "length (AList.update path ?e (AList.delete firstKey (cache c))) \<le> length (cache c)"
      using length_update_le[of path ?e "AList.delete firstKey (cache c)"] by linarith
    then have 1: "length (AList.update path ?e (AList.delete firstKey (cache c))) \<le> maxSize c"
      using assms(1) by (simp add: cache_inv_def)
    have 2: "[] \<notin> fst ` set (AList.update path ?e (AList.delete firstKey (cache c)))"
      using assms(1) pne keys_delete[of firstKey "cache c"] by (auto simp: keys_update cache_inv_def)
    have "FileCache_set stat path d c
            = c\<lparr> cache := AList.update path ?e (AList.delete firstKey (cache c)) \<rparr>"
      using Some True fne m by (simp add: FileCache_set_def)
    with 1 2 show ?thesis by (simp add: cache_inv_def)
  qed
qed

lemma cache_inv_apply_op:
  assumes "cache_inv c" and "1 \<le> maxSize c" and "op_on_real_files op"
  shows "cache_inv (apply_op op c) \<and> maxSize (apply_op op c) = maxSize c"
proof (cases op)
  case (OpGet stat path)
  then show ?thesis using cache_inv_get[OF assms(1)] by simp
next
  case (OpSet stat path d)
  then show ?thesis using cache_inv_set[OF assms(1,2)] assms(3) by simp
next
  case (OpInvalidate path)
  then show ?thesis
    using assms(1) length_delete_le[of path "cache c"] keys_delete[of path "cache c"]
    by (auto simp: FileCache_invalidate_def cache_inv_def)
next
  case OpClear
  then show ?thesis using assms(1) by (simp add: FileCache_clear_def cache_inv_def)
qed

lemma cache_inv_run_ops:
  assumes "cache_inv c" and "1 \<le> maxSize c" and "\<forall>op \<in> set ops. op_on_real_files op"
  shows "cache_inv (run_ops ops c) \<and> maxSize (run_ops ops c) = maxSize c"
  using assms unfolding run_ops_def
proof (induction ops arbitrary: c)
  case Nil
  then show ?case by simp
next
  case (Cons op ops)
  from cache_inv_apply_op[OF Cons.prems(1,2), of op] Cons.prems(3)
  have "cache_inv (apply_op op c)" "maxSize (apply_op op c) = maxSize c" by auto
  with Cons.IH[of "apply_op op c"] Cons.prems show ?case by simp
qed


lemma cache_inv_new: "cache_inv (new_FileCache n)"
  by (simp add: cache_inv_def new_FileCache_def)

lemma parseFile_cache_disabled:
  "parseFile False stat parse filePath qmdCache =
     ((case parse filePath of
         None \<Rightarrow> Inl (QmdParseError filePath)
       | Some metadata \<Rightarrow> Inr (filePath, metadata)),
      qmdCache)"
  by (simp add: parseFile_def split: option.splits)

text \<open>
  From capacity one on the cache keeps its bound: for every sequence of set, get,
  invalidate and clear operations, each completed before the next starts and the empty
  path naming no file, the number of stored entries never exceeds the capacity, at any
  point of the sequence.
\<close>

lemma FileCache_bounded_from_capacity_one:
  assumes "1 \<le> n" and "\<forall>op \<in> set ops. op_on_real_files op"
  shows "FileCache_size (run_ops (take k ops) (new_FileCache n)) \<le> n"
proof -
  have "\<forall>op \<in> set (take k ops). op_on_real_files op"
    using assms(2) by (meson in_set_takeD)
  from cache_inv_run_ops[OF cache_inv_new _ this, of n] assms(1)
  show ?thesis by (simp add: cache_inv_def FileCache_size_def new_FileCache_def)
qed


text \<open>
  In the loader the defect stays out of reach: with caching off, \<^verbatim>\<open>parseFile\<close> never calls
  the cache (lemma \<open>parseFile_cache_disabled\<close>).
\<close>

section \<open>Concurrent and sequential mode\<close>

lemma resume_task_outcome:
  "task_outcome stat parse (fst (resume_task enabled stat parse t c)) = task_outcome stat parse t"
  by (cases t) (auto simp: parse_outcome_def split: option.splits)

lemma resume_task_steps_left:
  "\<not> settled t \<Longrightarrow> steps_left (fst (resume_task enabled stat parse t c)) < steps_left t"
  by (cases t) (auto split: option.splits)

lemma concurrent_step_outcomes:
  assumes "concurrent_step enabled stat parse (tasks, c) (tasks', c')"
  shows "map (task_outcome stat parse) tasks' = map (task_outcome stat parse) tasks"
  using assms
proof (cases rule: concurrent_step.cases)
  case (resume i t')
  then have "task_outcome stat parse t' = task_outcome stat parse (tasks ! i)"
    using resume_task_outcome[of stat parse enabled "tasks ! i" c] by simp
  with resume show ?thesis
    by (simp add: map_update list_update_same_conv)
qed

lemma concurrent_run_outcomes:
  assumes "(concurrent_step enabled stat parse)\<^sup>*\<^sup>* s s'"
  shows "map (task_outcome stat parse) (fst s') = map (task_outcome stat parse) (fst s)"
  using assms
proof (induction rule: rtranclp_induct)
  case base
  then show ?case by simp
next
  case (step y z)
  then show ?case using concurrent_step_outcomes[of enabled stat parse "fst y" "snd y" "fst z" "snd z"]
    by simp
qed

lemma promise_all_settled:
  "list_all settled tasks \<Longrightarrow> promise_all tasks = collect (map (task_outcome stat parse) tasks)"
proof (induction tasks)
  case Nil
  then show ?case by simp
next
  case (Cons t tasks)
  then show ?case by (cases t) auto
qed

lemma sum_list_update_less:
  "i < length xs \<Longrightarrow> f y < f (xs ! i) \<Longrightarrow>
   sum_list (map f (xs[i := y])) < (sum_list (map f xs) :: nat)"
proof (induction xs arbitrary: i)
  case Nil
  then show ?case by simp
next
  case (Cons x xs)
  then show ?case by (cases i) auto
qed

lemma concurrent_run_completes:
  "\<exists>tasks' c'. (concurrent_step enabled stat parse)\<^sup>*\<^sup>* (tasks, c) (tasks', c')
      \<and> list_all settled tasks'"
proof (induction "sum_list (map steps_left tasks)" arbitrary: tasks c rule: less_induct)
  case less
  show ?case
  proof (cases "list_all settled tasks")
    case True
    then show ?thesis by blast
  next
    case False
    then obtain i where i: "i < length tasks" and ns: "\<not> settled (tasks ! i)"
      by (auto simp: list_all_length)
    obtain t' c' where r: "resume_task enabled stat parse (tasks ! i) c = (t', c')"
      by (cases "resume_task enabled stat parse (tasks ! i) c")
    have st: "concurrent_step enabled stat parse (tasks, c) (tasks[i := t'], c')"
      using i ns r by (rule concurrent_step.resume)
    have "steps_left t' < steps_left (tasks ! i)"
      using resume_task_steps_left[OF ns, of enabled stat parse c] r by simp
    then have "sum_list (map steps_left (tasks[i := t'])) < sum_list (map steps_left tasks)"
      using i by (intro sum_list_update_less)
    from less[OF this, of c'] obtain tasks'' c'' where
      "(concurrent_step enabled stat parse)\<^sup>*\<^sup>* (tasks[i := t'], c') (tasks'', c'')"
      "list_all settled tasks''" by blast
    with st show ?thesis by (meson converse_rtranclp_into_rtranclp)
  qed
qed

lemma start_task_outcome:
  assumes "enabled \<longrightarrow> cache_coherent stat parse c"
  shows "task_outcome stat parse (start_task enabled c path) = parse_outcome parse path"
proof (cases "enabled \<and> map_of (cache c) path \<noteq> None")
  case False
  then show ?thesis by (auto simp: start_task_def)
next
  case True
  then obtain entry where e: "map_of (cache c) path = Some entry" by auto
  from True assms have coh: "cache_coherent stat parse c" by simp
  show ?thesis
  proof (cases "stat path")
    case None
    with True e show ?thesis by (simp add: start_task_def)
  next
    case (Some stats)
    show ?thesis
    proof (cases "mtimeMs stats = ce_mtime entry \<and> stat_size stats = ce_size entry")
      case False
      with True e Some show ?thesis by (auto simp: start_task_def)
    next
      case match: True
      with coh e Some have "parse path = Some (ce_data entry)"
        unfolding cache_coherent_def by blast
      with True e Some match show ?thesis by (simp add: start_task_def parse_outcome_def)
    qed
  qed
qed

lemma coherent_delete:
  "cache_coherent stat parse c \<Longrightarrow>
   cache_coherent stat parse (c\<lparr> cache := AList.delete k (cache c) \<rparr>)"
  by (auto simp: cache_coherent_def delete_conv' split: if_splits)

lemma coherent_update:
  assumes "cache_coherent stat parse c"
    and "\<And>stats. stat k = Some stats \<Longrightarrow> mtimeMs stats = ce_mtime e \<Longrightarrow>
           stat_size stats = ce_size e \<Longrightarrow> parse k = Some (ce_data e)"
  shows "cache_coherent stat parse (c\<lparr> cache := AList.update k e (cache c) \<rparr>)"
  using assms by (auto simp: cache_coherent_def update_conv' split: if_splits)

lemma coherent_get:
  assumes "cache_coherent stat parse c"
  shows "cache_coherent stat parse (snd (FileCache_get stat path c))"
proof (cases "map_of (cache c) path")
  case None
  with assms show ?thesis by (simp add: FileCache_get_def)
next
  case (Some entry)
  have d: "cache_coherent stat parse (c\<lparr> cache := AList.delete path (cache c) \<rparr>)"
    using assms by (rule coherent_delete)
  have "cache_coherent stat parse
          ((c\<lparr> cache := AList.delete path (cache c) \<rparr>)
             \<lparr> cache := AList.update path entry
                          (cache (c\<lparr> cache := AList.delete path (cache c) \<rparr>)) \<rparr>)"
    using d
  proof (rule coherent_update)
    fix stats
    assume "stat path = Some stats" "mtimeMs stats = ce_mtime entry" "stat_size stats = ce_size entry"
    with assms Some show "parse path = Some (ce_data entry)"
      unfolding cache_coherent_def by blast
  qed
  then have u: "cache_coherent stat parse
                  (c\<lparr> cache := AList.update path entry (AList.delete path (cache c)) \<rparr>)"
    by simp
  show ?thesis
    using Some d u by (auto simp: FileCache_get_def split: option.splits)
qed

lemma coherent_set:
  assumes "cache_coherent stat parse c" and "parse path = Some metadata"
  shows "cache_coherent stat parse (FileCache_set stat path metadata c)"
proof (cases "stat path")
  case None
  with assms show ?thesis by (simp add: FileCache_set_def)
next
  case (Some stats)
  define kept where "kept =
     (if maxSize c \<le> length (cache c)
      then (case cache c of
              [] \<Rightarrow> []
            | (firstKey, oldest) # others \<Rightarrow>
                if firstKey \<noteq> [] then AList.delete firstKey (cache c) else cache c)
      else cache c)"
  have "kept = cache c \<or> (\<exists>k. kept = AList.delete k (cache c))"
    unfolding kept_def by (auto split: list.splits)
  then have k: "cache_coherent stat parse (c\<lparr> cache := kept \<rparr>)"
  proof
    assume "kept = cache c"
    with assms(1) show ?thesis by simp
  next
    assume "\<exists>k. kept = AList.delete k (cache c)"
    then obtain k where "kept = AList.delete k (cache c)" by blast
    with coherent_delete[OF assms(1), of k] show ?thesis by simp
  qed
  have "cache_coherent stat parse
          ((c\<lparr> cache := kept \<rparr>)
             \<lparr> cache := AList.update path
                  \<lparr> ce_data = metadata, ce_mtime = mtimeMs stats, ce_size = stat_size stats \<rparr>
                  (cache (c\<lparr> cache := kept \<rparr>)) \<rparr>)"
    using k by (rule coherent_update) (simp add: assms(2))
  moreover have "FileCache_set stat path metadata c =
      c\<lparr> cache := AList.update path
                  \<lparr> ce_data = metadata, ce_mtime = mtimeMs stats, ce_size = stat_size stats \<rparr>
                  kept \<rparr>"
    using Some by (simp add: FileCache_set_def kept_def Let_def)
  ultimately show ?thesis by simp
qed

lemma get_coherent_result:
  assumes "cache_coherent stat parse c" and "fst (FileCache_get stat path c) = Some metadata"
  shows "parse path = Some metadata"
  using assms
  by (auto simp: FileCache_get_def cache_coherent_def split: option.splits if_splits)

lemma parseFile_coherent:
  assumes "enabled \<longrightarrow> cache_coherent stat parse c"
  shows "fst (parseFile enabled stat parse path c) = parse_outcome parse path
       \<and> (enabled \<longrightarrow> cache_coherent stat parse (snd (parseFile enabled stat parse path c)))"
proof (cases enabled)
  case False
  then show ?thesis by (simp add: parseFile_def parse_outcome_def split: option.splits)
next
  case True
  with assms have coh: "cache_coherent stat parse c" by simp
  obtain cached afterGet where g: "FileCache_get stat path c = (cached, afterGet)"
    by (cases "FileCache_get stat path c")
  have cg: "cache_coherent stat parse afterGet"
    using coherent_get[OF coh, of path] g by simp
  show ?thesis
  proof (cases cached)
    case (Some metadata)
    with get_coherent_result[OF coh, of path metadata] g
    have "parse path = Some metadata" by simp
    with True g Some cg show ?thesis by (simp add: parseFile_def parse_outcome_def)
  next
    case None
    show ?thesis
    proof (cases "parse path")
      case pn: None
      with True g None cg show ?thesis by (simp add: parseFile_def parse_outcome_def)
    next
      case (Some metadata)
      with True g None coherent_set[OF cg Some] show ?thesis
        by (simp add: parseFile_def parse_outcome_def)
    qed
  qed
qed

lemma parseFiles_sequential_coherent:
  assumes "enabled \<longrightarrow> cache_coherent stat parse c"
  shows "(case fst (parseFiles_sequential enabled stat parse files c) of
            Inl e \<Rightarrow> None
          | Inr parsedFiles \<Rightarrow> Some parsedFiles)
         = collect (map (parse_outcome parse) files)"
  using assms
proof (induction files arbitrary: c)
  case Nil
  then show ?case by simp
next
  case (Cons f files)
  obtain r c1 where p: "parseFile enabled stat parse f c = (r, c1)"
    by (cases "parseFile enabled stat parse f c")
  have r: "r = parse_outcome parse f" and c1: "enabled \<longrightarrow> cache_coherent stat parse c1"
    using parseFile_coherent[OF Cons.prems, of f] unfolding p fst_conv snd_conv by blast+
  show ?case
  proof (cases r)
    case (Inl e)
    with r have "parse_outcome parse f = Inl e" by simp
    with p Inl show ?thesis by simp
  next
    case (Inr parsed)
    obtain rs c2 where q: "parseFiles_sequential enabled stat parse files c1 = (rs, c2)"
      by (cases "parseFiles_sequential enabled stat parse files c1")
    from Cons.IH[OF c1] q
    have "collect (map (parse_outcome parse) files)
            = (case rs of Inl e \<Rightarrow> None | Inr parsedFiles \<Rightarrow> Some parsedFiles)" by simp
    moreover have "parse_outcome parse f = Inr parsed" using r Inr by simp
    moreover have "parseFile enabled stat parse f c = (Inr parsed, c1)" using p Inr by simp
    ultimately show ?thesis using q by (cases rs) simp_all
  qed
qed

lemma filter_sequential_aux:
  "fold (\<lambda>entry kept. if hook (entry_data entry) then kept @ [entry] else kept) entries acc
     = acc @ filter (\<lambda>entry. hook (entry_data entry)) entries"
  by (induction entries arbitrary: acc) auto

lemma filter_sequential_eq:
  "filter_sequential hook entries = filter (\<lambda>entry. hook (entry_data entry)) entries"
  by (simp add: filter_sequential_def filter_sequential_aux)

lemma filter_parallel_eq:
  "filter_parallel hook entries = filter (\<lambda>entry. hook (entry_data entry)) entries"
  unfolding filter_parallel_def by (induction entries) auto

lemma transform_sequential_aux:
  "fold (\<lambda>entry transformed. transformed @ [f entry]) entries acc = acc @ map f entries"
  by (induction entries arbitrary: acc) auto

lemma transform_modes_eq: "transform_sequential hook entries = transform_parallel hook entries"
  by (simp add: transform_sequential_def transform_parallel_def transform_sequential_aux)

lemma entriesAfterTransform_modes:
  "entriesAfterTransform pm (config\<lparr> cfg_parallel := Some True \<rparr>) defaults parsedFiles
     = entriesAfterTransform pm (config\<lparr> cfg_parallel := Some False \<rparr>) defaults parsedFiles"
  by (simp add: entriesAfterTransform_def normalizeEntries_def filterEntries_def
      transformEntries_def parallelEnabled_def filter_sequential_eq filter_parallel_eq
      transform_modes_eq split: sum.splits option.splits)

lemma case_sum_as_option:
  "(case s of Inl e \<Rightarrow> None | Inr x \<Rightarrow> g x)
     = (case (case s of Inl e \<Rightarrow> None | Inr x \<Rightarrow> Some x) of None \<Rightarrow> None | Some x \<Rightarrow> g x)"
  by (cases s) simp_all

text \<open>
  C6, as amended. For every list of resolved files and every pure filter and transform
  hook, provided that caching is off or the parse cache agrees with the files (every
  entry whose modification time and size are those of its file holds the metadata that
  parsing the file gives): running the parse, filter and transform stages in concurrent
  mode, under any interleaving of the file operations, and in strictly sequential mode
  produces the identical final result set, the same entries with the same data in the
  same order, or in both modes the load ends in an error. Every concurrent run can be
  completed, so the concurrent mode does produce this result.
\<close>

theorem concurrent_and_sequential_modes_agree:
  assumes "cacheEnabled config \<longrightarrow> cache_coherent stat parse qmdCache"
  shows "transformedEntries pm (config\<lparr> cfg_parallel := Some True \<rparr>) defaults stat parse files
           qmdCache result
       \<longleftrightarrow> transformedEntries pm (config\<lparr> cfg_parallel := Some False \<rparr>) defaults stat parse files
           qmdCache result"
proof -
  let ?par = "config\<lparr> cfg_parallel := Some True \<rparr>"
  let ?seq = "config\<lparr> cfg_parallel := Some False \<rparr>"
  let ?en = "cacheEnabled config"
  have en: "cacheEnabled ?par = ?en" "cacheEnabled ?seq = ?en"
    by (simp_all add: cacheEnabled_def)
  have par: "parallelEnabled ?par" and seq: "\<not> parallelEnabled ?seq"
    by (simp_all add: parallelEnabled_def)
  let ?parsed = "collect (map (parse_outcome parse) files)"
  let ?r = "case ?parsed of None \<Rightarrow> None
            | Some parsedFiles \<Rightarrow> entriesAfterTransform pm ?seq defaults parsedFiles"
  have seq_value:
    "(case fst (parseFiles_sequential ?en stat parse files qmdCache) of
        Inl e \<Rightarrow> None
      | Inr parsedFiles \<Rightarrow> entriesAfterTransform pm ?seq defaults parsedFiles) = ?r"
  proof -
    have "(case fst (parseFiles_sequential ?en stat parse files qmdCache) of
             Inl e \<Rightarrow> None
           | Inr parsedFiles \<Rightarrow> entriesAfterTransform pm ?seq defaults parsedFiles)
          = (case (case fst (parseFiles_sequential ?en stat parse files qmdCache) of
                     Inl e \<Rightarrow> None | Inr x \<Rightarrow> Some x) of
               None \<Rightarrow> None
             | Some parsedFiles \<Rightarrow> entriesAfterTransform pm ?seq defaults parsedFiles)"
      by (rule case_sum_as_option)
    also have "\<dots> = ?r"
      unfolding parseFiles_sequential_coherent[OF assms, of files] ..
    finally show ?thesis .
  qed
  have seq_result: "transformedEntries pm ?seq defaults stat parse files qmdCache r \<longleftrightarrow> r = ?r" for r
  proof
    assume "transformedEntries pm ?seq defaults stat parse files qmdCache r"
    then show "r = ?r"
    proof (cases rule: transformedEntries.cases)
      case (sequential parsed)
      then have "r = (case fst (parseFiles_sequential ?en stat parse files qmdCache) of
                        Inl e \<Rightarrow> None
                      | Inr parsedFiles \<Rightarrow> entriesAfterTransform pm ?seq defaults parsedFiles)"
        unfolding en by blast
      then show ?thesis unfolding seq_value .
    next
      case (concurrent tasks afterAll)
      with seq show ?thesis by simp
    qed
  next
    assume r: "r = ?r"
    have "transformedEntries pm ?seq defaults stat parse files qmdCache
            (case fst (parseFiles_sequential (cacheEnabled ?seq) stat parse files qmdCache) of
               Inl e \<Rightarrow> None
             | Inr parsedFiles \<Rightarrow> entriesAfterTransform pm ?seq defaults parsedFiles)"
      using seq by (rule transformedEntries.sequential) simp
    then show "transformedEntries pm ?seq defaults stat parse files qmdCache r"
      unfolding en seq_value r .
  qed
  have settled_result: "promise_all tasks = ?parsed"
    if run: "(concurrent_step ?en stat parse)\<^sup>*\<^sup>*
               (map (start_task ?en qmdCache) files, qmdCache) (tasks, afterAll)"
      and fin: "list_all settled tasks" for tasks afterAll
  proof -
    have "map (task_outcome stat parse) tasks
            = map (task_outcome stat parse) (map (start_task ?en qmdCache) files)"
      using concurrent_run_outcomes[OF run] by simp
    also have "\<dots> = map (parse_outcome parse) files"
      using start_task_outcome[OF assms] by simp
    finally show ?thesis using promise_all_settled[OF fin, of stat parse] by simp
  qed
  have par_result: "transformedEntries pm ?par defaults stat parse files qmdCache r \<longleftrightarrow> r = ?r" for r
  proof
    assume "transformedEntries pm ?par defaults stat parse files qmdCache r"
    then show "r = ?r"
    proof (cases rule: transformedEntries.cases)
      case (sequential parsed)
      with par show ?thesis by simp
    next
      case (concurrent tasks afterAll)
      with settled_result[of tasks afterAll] en show ?thesis
        by (simp add: entriesAfterTransform_modes cong: option.case_cong)
    qed
  next
    assume r: "r = ?r"
    obtain tasks afterAll where
      run: "(concurrent_step ?en stat parse)\<^sup>*\<^sup>*
               (map (start_task ?en qmdCache) files, qmdCache) (tasks, afterAll)"
      and fin: "list_all settled tasks"
      using concurrent_run_completes by blast
    have "transformedEntries pm ?par defaults stat parse files qmdCache
            (case promise_all tasks of
               None \<Rightarrow> None
             | Some parsedFiles \<Rightarrow> entriesAfterTransform pm ?par defaults parsedFiles)"
      using par run fin by (intro transformedEntries.concurrent) (simp_all add: en)
    with settled_result[OF run fin] r show "transformedEntries pm ?par defaults stat parse files qmdCache r"
      by (simp add: entriesAfterTransform_modes cong: option.case_cong)
  qed
  show ?thesis using seq_result par_result by simp
qed


theorem concurrent_and_sequential_modes_agree_witness:
  "\<forall>pm.
     cache_coherent site_stat site_parse (new_FileCache 500)
   \<and> transformedEntries pm (hooks_config\<lparr> cfg_parallel := Some False \<rparr>) []
       site_stat site_parse [new_path, old_path] (new_FileCache 500)
       (Some [\<lparr> entry_id = ''old'', entry_slug = ''old'',
                 entry_data = [(''title'', JStr ''After''), (''draft'', JBool False),
                               (''reviewed'', JBool True)] \<rparr>])
   \<and> transformedEntries pm (hooks_config\<lparr> cfg_parallel := Some True \<rparr>) []
       site_stat site_parse [new_path, old_path] (new_FileCache 500)
       (Some [\<lparr> entry_id = ''old'', entry_slug = ''old'',
                 entry_data = [(''title'', JStr ''After''), (''draft'', JBool False),
                               (''reviewed'', JBool True)] \<rparr>])"
proof (intro allI)
  fix pm :: path_module
  let ?seq = "hooks_config\<lparr> cfg_parallel := Some False \<rparr>"
  let ?par = "hooks_config\<lparr> cfg_parallel := Some True \<rparr>"
  let ?r = "Some [\<lparr> entry_id = ''old'', entry_slug = ''old'',
                 entry_data = [(''title'', JStr ''After''), (''draft'', JBool False),
                               (''reviewed'', JBool True)] \<rparr>]"
  have coh: "cache_coherent site_stat site_parse (new_FileCache 500)"
    by (simp add: cache_coherent_def new_FileCache_def)
  have seq: "\<not> parallelEnabled ?seq"
    by (simp add: parallelEnabled_def)
  have parsed: "fst (parseFiles_sequential (cacheEnabled ?seq) site_stat site_parse
                  [new_path, old_path] (new_FileCache 500))
        = Inr [(new_path, [(''title'', JStr ''New'')]), (old_path, [(''title'', JStr ''After'')])]"
    by code_simp
  have after: "entriesAfterTransform pm ?seq []
          [(new_path, [(''title'', JStr ''New'')]), (old_path, [(''title'', JStr ''After'')])] = ?r"
    by code_simp
  have "transformedEntries pm ?seq [] site_stat site_parse [new_path, old_path] (new_FileCache 500)
          (case fst (parseFiles_sequential (cacheEnabled ?seq) site_stat site_parse
                       [new_path, old_path] (new_FileCache 500)) of
             Inl e \<Rightarrow> None
           | Inr parsedFiles \<Rightarrow> entriesAfterTransform pm ?seq [] parsedFiles)"
    using seq by (rule transformedEntries.sequential) simp
  then have s: "transformedEntries pm ?seq [] site_stat site_parse [new_path, old_path]
                  (new_FileCache 500) ?r"
    unfolding parsed by (simp add: after)
  have "cacheEnabled hooks_config \<longrightarrow> cache_coherent site_stat site_parse (new_FileCache 500)"
    using coh by simp
  from concurrent_and_sequential_modes_agree[OF this, of pm "[]" "[new_path, old_path]" ?r] s
  have p: "transformedEntries pm ?par [] site_stat site_parse [new_path, old_path]
             (new_FileCache 500) ?r"
    by simp
  from coh s p show "cache_coherent site_stat site_parse (new_FileCache 500)
     \<and> transformedEntries pm ?seq [] site_stat site_parse [new_path, old_path]
         (new_FileCache 500) ?r
     \<and> transformedEntries pm ?par [] site_stat site_parse [new_path, old_path]
         (new_FileCache 500) ?r"
    by blast
qed

lemma archive_keys:
  "k \<in> fst ` set archive_entries \<Longrightarrow> take 14 k = ''/site/archive/''"
  by (auto simp: archive_entries_def)

lemma old_not_archived: "old_path \<notin> fst ` set archive_entries"
  using archive_keys[of old_path] by (auto simp: old_path_def)

lemma new_not_archived: "new_path \<notin> fst ` set archive_entries"
  using archive_keys[of new_path] by (auto simp: new_path_def)

lemma length_archive_entries: "length archive_entries = 499"
  by (simp add: archive_entries_def)

lemma map_of_archive_old: "map_of archive_entries old_path = None"
  using old_not_archived by (simp add: map_of_eq_None_iff)

lemma map_of_archive_new: "map_of archive_entries new_path = None"
  using new_not_archived by (simp add: map_of_eq_None_iff)

lemma update_fresh_key: "k \<notin> fst ` set m \<Longrightarrow> AList.update k v m = m @ [(k, v)]"
  by (induction m) auto

lemma paths_differ: "new_path \<noteq> old_path" "old_path \<noteq> []" "new_path \<noteq> []"
  by (simp_all add: new_path_def old_path_def)

lemma map_of_after_new:
  "map_of (archive_entries @ [(new_path, e)]) old_path = None"
  using paths_differ(1) by (auto simp: map_add_def map_of_archive_old split: option.splits)

lemma stale_sequential:
  "fst (parseFiles_sequential True site_stat site_parse [new_path, old_path] full_cache)
     = Inr [(new_path, [(''title'', JStr ''New'')]), (old_path, [(''title'', JStr ''After'')])]"
proof -
  let ?e = "\<lparr> ce_data = [(''title'', JStr ''New'')], ce_mtime = 1735689600000, ce_size = 120 \<rparr>"
  have g1: "FileCache_get site_stat new_path full_cache = (None, full_cache)"
    using paths_differ by (simp add: FileCache_get_def full_cache_def map_of_archive_new)
  have s1: "FileCache_set site_stat new_path [(''title'', JStr ''New'')] full_cache
              = \<lparr> cache = archive_entries @ [(new_path, ?e)], maxSize = 500 \<rparr>"
    using paths_differ old_not_archived new_not_archived
    by (simp add: FileCache_set_def full_cache_def site_stat_def length_archive_entries
        update_fresh_key)
  have p1: "parseFile True site_stat site_parse new_path full_cache
              = (Inr (new_path, [(''title'', JStr ''New'')]),
                 \<lparr> cache = archive_entries @ [(new_path, ?e)], maxSize = 500 \<rparr>)"
    using paths_differ by (simp add: parseFile_def g1 s1 site_parse_def)
  have g2: "FileCache_get site_stat old_path
                   \<lparr> cache = archive_entries @ [(new_path, ?e)], maxSize = 500 \<rparr>
              = (None, \<lparr> cache = archive_entries @ [(new_path, ?e)], maxSize = 500 \<rparr>)"
    by (simp add: FileCache_get_def map_of_after_new del: map_of_append)
  have "\<exists>c2. parseFile True site_stat site_parse old_path
                   \<lparr> cache = archive_entries @ [(new_path, ?e)], maxSize = 500 \<rparr>
              = (Inr (old_path, [(''title'', JStr ''After'')]), c2)"
    by (simp add: parseFile_def g2 site_parse_def)
  then obtain c2 where p2: "parseFile True site_stat site_parse old_path
                   \<lparr> cache = archive_entries @ [(new_path, ?e)], maxSize = 500 \<rparr>
              = (Inr (old_path, [(''title'', JStr ''After'')]), c2)"
    by blast
  show ?thesis
    by (simp add: p1 p2)
qed

lemma stale_start:
  "map (task_outcome site_stat site_parse) (map (start_task True full_cache) [new_path, old_path])
     = [Inr (new_path, [(''title'', JStr ''New'')]), Inr (old_path, [(''title'', JStr ''Before'')])]"
  using paths_differ
  by (simp add: start_task_def full_cache_def map_of_archive_new site_stat_def
      parse_outcome_def site_parse_def)

text \<open>
  The claim as stated fails on a stale entry in a full cache. In concurrent mode every
  call looks its file up in the cache before any call stores anything, so the call for
  \<^verbatim>\<open>old.qmd\<close> holds the stale entry, finds the modification time and size unchanged and
  returns the old title. In sequential mode the call for \<^verbatim>\<open>new.qmd\<close> runs to its end
  first; storing its result in the full cache evicts the oldest entry, the one of
  \<^verbatim>\<open>old.qmd\<close>, and the call for \<^verbatim>\<open>old.qmd\<close> then parses the file and returns the new title.
\<close>

theorem stale_cache_modes_differ_counterexample:
  "\<forall>pm.
     transformedEntries pm (default_config\<lparr> cfg_parallel := Some True \<rparr>) []
       site_stat site_parse [new_path, old_path] full_cache
       (Some [\<lparr> entry_id = ''new'', entry_slug = ''new'',
                 entry_data = [(''title'', JStr ''New''), (''draft'', JBool False)] \<rparr>,
              \<lparr> entry_id = ''old'', entry_slug = ''old'',
                 entry_data = [(''title'', JStr ''Before''), (''draft'', JBool False)] \<rparr>])
   \<and> transformedEntries pm (default_config\<lparr> cfg_parallel := Some False \<rparr>) []
       site_stat site_parse [new_path, old_path] full_cache
       (Some [\<lparr> entry_id = ''new'', entry_slug = ''new'',
                 entry_data = [(''title'', JStr ''New''), (''draft'', JBool False)] \<rparr>,
              \<lparr> entry_id = ''old'', entry_slug = ''old'',
                 entry_data = [(''title'', JStr ''After''), (''draft'', JBool False)] \<rparr>])
   \<and> \<not> transformedEntries pm (default_config\<lparr> cfg_parallel := Some False \<rparr>) []
       site_stat site_parse [new_path, old_path] full_cache
       (Some [\<lparr> entry_id = ''new'', entry_slug = ''new'',
                 entry_data = [(''title'', JStr ''New''), (''draft'', JBool False)] \<rparr>,
              \<lparr> entry_id = ''old'', entry_slug = ''old'',
                 entry_data = [(''title'', JStr ''Before''), (''draft'', JBool False)] \<rparr>])"
proof (intro allI)
  fix pm :: path_module
  let ?par = "default_config\<lparr> cfg_parallel := Some True \<rparr>"
  let ?seq = "default_config\<lparr> cfg_parallel := Some False \<rparr>"
  let ?new = "\<lparr> entry_id = ''new'', entry_slug = ''new'',
                 entry_data = [(''title'', JStr ''New''), (''draft'', JBool False)] \<rparr>"
  let ?old = "\<lambda>t. \<lparr> entry_id = ''old'', entry_slug = ''old'',
                 entry_data = [(''title'', JStr t), (''draft'', JBool False)] \<rparr>"
  have en: "cacheEnabled ?par" "cacheEnabled ?seq"
    by (simp_all add: cacheEnabled_def default_config_def)
  have par: "parallelEnabled ?par" and seq: "\<not> parallelEnabled ?seq"
    by (simp_all add: parallelEnabled_def)
  have after_par: "entriesAfterTransform pm ?par []
          [(new_path, [(''title'', JStr ''New'')]), (old_path, [(''title'', JStr ''Before'')])]
        = Some [?new, ?old ''Before'']"
    by code_simp
  have after_seq: "entriesAfterTransform pm ?seq []
          [(new_path, [(''title'', JStr ''New'')]), (old_path, [(''title'', JStr ''After'')])]
        = Some [?new, ?old ''After'']"
    by code_simp
  obtain tasks afterAll where
    run: "(concurrent_step True site_stat site_parse)\<^sup>*\<^sup>*
            (map (start_task True full_cache) [new_path, old_path], full_cache) (tasks, afterAll)"
    and fin: "list_all settled tasks"
    using concurrent_run_completes by blast
  have "promise_all tasks = collect (map (task_outcome site_stat site_parse) tasks)"
    using fin by (rule promise_all_settled)
  also have "map (task_outcome site_stat site_parse) tasks
        = map (task_outcome site_stat site_parse) (map (start_task True full_cache) [new_path, old_path])"
    using concurrent_run_outcomes[OF run] by simp
  finally have all: "promise_all tasks
        = Some [(new_path, [(''title'', JStr ''New'')]), (old_path, [(''title'', JStr ''Before'')])]"
    unfolding stale_start by simp
  have "transformedEntries pm ?par [] site_stat site_parse [new_path, old_path] full_cache
          (case promise_all tasks of
             None \<Rightarrow> None
           | Some parsedFiles \<Rightarrow> entriesAfterTransform pm ?par [] parsedFiles)"
    using par run fin by (intro transformedEntries.concurrent) (simp_all add: en)
  then have 1: "transformedEntries pm ?par [] site_stat site_parse [new_path, old_path] full_cache
          (Some [?new, ?old ''Before''])"
    unfolding all by (simp add: after_par)
  have "transformedEntries pm ?seq [] site_stat site_parse [new_path, old_path] full_cache
          (case fst (parseFiles_sequential (cacheEnabled ?seq) site_stat site_parse
                       [new_path, old_path] full_cache) of
             Inl e \<Rightarrow> None
           | Inr parsedFiles \<Rightarrow> entriesAfterTransform pm ?seq [] parsedFiles)"
    using seq by (rule transformedEntries.sequential) simp
  then have 2: "transformedEntries pm ?seq [] site_stat site_parse [new_path, old_path] full_cache
          (Some [?new, ?old ''After''])"
    unfolding en(2)[THEN eqTrueI] stale_sequential by (simp add: after_seq)
  have 3: "\<not> transformedEntries pm ?seq [] site_stat site_parse [new_path, old_path] full_cache
          (Some [?new, ?old ''Before''])"
  proof
    assume "transformedEntries pm ?seq [] site_stat site_parse [new_path, old_path] full_cache
          (Some [?new, ?old ''Before''])"
    then show False
    proof (cases rule: transformedEntries.cases)
      case (sequential parsed)
      then have "parsed = Inr [(new_path, [(''title'', JStr ''New'')]),
                               (old_path, [(''title'', JStr ''After'')])]"
        using stale_sequential en(2) by simp
      with sequential(1) show False by (simp add: after_seq)
    next
      case (concurrent tasks afterAll)
      with seq show False by simp
    qed
  qed
  from 1 2 3 show "transformedEntries pm ?par [] site_stat site_parse [new_path, old_path] full_cache
          (Some [?new, ?old ''Before''])
     \<and> transformedEntries pm ?seq [] site_stat site_parse [new_path, old_path] full_cache
          (Some [?new, ?old ''After''])
     \<and> \<not> transformedEntries pm ?seq [] site_stat site_parse [new_path, old_path] full_cache
          (Some [?new, ?old ''Before''])"
    by blast
qed


text \<open>
  The bound on the size of the cache is a property of operations that run one after
  another. In concurrent mode a \<^verbatim>\<open>get\<close> that has looked its entry up and waits for
  \<^verbatim>\<open>stat\<close> puts the entry back when it resumes, without evicting: when a \<^verbatim>\<open>set\<close> of
  another call has evicted the entry and filled the place in between, the cache ends
  above its capacity. Shown at capacity 1; the loader's cache of 500 entries behaves
  the same way.
\<close>


lemma concurrent_get_exceeds_capacity:
  "(concurrent_step True three_files parse)\<^sup>*\<^sup>*
     ([AwaitGetStat ''a.qmd'' \<lparr> ce_data = [], ce_mtime = 5, ce_size = 10 \<rparr>,
       AwaitSetStat ''b.qmd'' []],
      \<lparr> cache = [(''a.qmd'', \<lparr> ce_data = [], ce_mtime = 5, ce_size = 10 \<rparr>)], maxSize = 1 \<rparr>)
     ([Resolved ''a.qmd'' [], Resolved ''b.qmd'' []],
      \<lparr> cache = [(''b.qmd'', \<lparr> ce_data = [], ce_mtime = 5, ce_size = 10 \<rparr>),
                 (''a.qmd'', \<lparr> ce_data = [], ce_mtime = 5, ce_size = 10 \<rparr>)],
        maxSize = 1 \<rparr>)"
proof -
  let ?e = "\<lparr> ce_data = [] :: obj, ce_mtime = 5, ce_size = 10 \<rparr>"
  let ?c0 = "\<lparr> cache = [(''a.qmd'', ?e)], maxSize = 1 \<rparr>"
  let ?c1 = "\<lparr> cache = [(''b.qmd'', ?e)], maxSize = 1 \<rparr>"
  let ?c2 = "\<lparr> cache = [(''b.qmd'', ?e), (''a.qmd'', ?e)], maxSize = 1 \<rparr>"
  have s1: "concurrent_step True three_files parse
              ([AwaitGetStat ''a.qmd'' ?e, AwaitSetStat ''b.qmd'' []], ?c0)
              ([AwaitGetStat ''a.qmd'' ?e, AwaitSetStat ''b.qmd'' []][1 := Resolved ''b.qmd'' []], ?c1)"
    by (rule concurrent_step.resume) (simp_all add: FileCache_set_def Let_def three_files_def)
  have s2: "concurrent_step True three_files parse
              ([AwaitGetStat ''a.qmd'' ?e, Resolved ''b.qmd'' []], ?c1)
              ([AwaitGetStat ''a.qmd'' ?e, Resolved ''b.qmd'' []][0 := Resolved ''a.qmd'' []], ?c2)"
    by (rule concurrent_step.resume) (simp_all add: three_files_def)
  from s1 s2 show ?thesis by (simp add: converse_rtranclp_into_rtranclp)
qed

end
